theory Spec2Isabelle
  imports Main "HOL-Library.Sublist"
begin

section \<open>Python values used by \<open>app/main.py\<close>\<close>

text \<open>
  A Python \<open>str\<close> is a sequence of Unicode code points. It is modelled as a list of
  natural numbers, one per code point, so that literals of the source outside Latin-1
  (the lightning sign of the dashboard) are ordinary values. \<open>ascii\<close> embeds an ASCII
  literal.
\<close>

type_synonym pystr = "nat list"

definition ascii :: "string \<Rightarrow> pystr" where
  "ascii s = map of_char s"

text \<open>The exceptions the modelled code can raise; an exception is the \<open>Inl\<close> of a sum.\<close>

datatype py_error = KeyError | IndexError | AttributeError | ValueError | ExternalError

text \<open>
  \<open>str.isspace\<close> on one code point, which is what \<open>str.strip()\<close> without arguments
  removes: 0x09-0x0D, 0x1C-0x20, 0x85, 0xA0, 0x1680, 0x2000-0x200A, 0x2028, 0x2029,
  0x202F, 0x205F, 0x3000.
\<close>

definition py_isspace :: "nat \<Rightarrow> bool" where
  "py_isspace c \<longleftrightarrow>
     (9 \<le> c \<and> c \<le> 13) \<or> (28 \<le> c \<and> c \<le> 32) \<or> c = 133 \<or> c = 160 \<or> c = 5760 \<or>
     (8192 \<le> c \<and> c \<le> 8202) \<or> c = 8232 \<or> c = 8233 \<or> c = 8239 \<or> c = 8287 \<or> c = 12288"

definition py_strip :: "pystr \<Rightarrow> pystr" where
  "py_strip s = rev (dropWhile py_isspace (rev (dropWhile py_isspace s)))"

text \<open>\<open>sub in s\<close> for two strings: \<open>sub\<close> occurs in \<open>s\<close> as a contiguous block.\<close>

fun py_contains :: "'a list \<Rightarrow> 'a list \<Rightarrow> bool" where
  "py_contains sub [] = (sub = [])"
| "py_contains sub (c # cs) = (prefix sub (c # cs) \<or> py_contains sub cs)"

text \<open>
  \<open>s.split(sep)\<close>: the scan goes left to right; where \<open>sep\<close> starts at the current
  position the current part ends and the scan goes on behind the separator, otherwise
  the character joins the current part. The result has one more part than there are
  (leftmost, non-overlapping) occurrences. Python raises \<open>ValueError\<close> for an empty
  separator.
\<close>

fun split_go :: "'a list \<Rightarrow> 'a list \<Rightarrow> 'a list list" where
  "split_go sep [] = [[]]"
| "split_go sep (c # cs) =
     (if prefix sep (c # cs) then [] # split_go sep (drop (length sep - 1) cs)
      else (case split_go sep cs of [] \<Rightarrow> [[c]] | p # ps \<Rightarrow> (c # p) # ps))"

definition py_split :: "pystr \<Rightarrow> pystr \<Rightarrow> py_error + pystr list" where
  "py_split sep s = (if sep = [] then Inl ValueError else Inr (split_go sep s))"

text \<open>
  \<open>s.replace(old, new)\<close>: every leftmost, non-overlapping occurrence of \<open>old\<close> is
  replaced; with an empty \<open>old\<close> Python puts \<open>new\<close> before every character and at
  the end.
\<close>

fun py_replace :: "'a list \<Rightarrow> 'a list \<Rightarrow> 'a list \<Rightarrow> 'a list" where
  "py_replace old new [] = (if old = [] then new else [])"
| "py_replace old new (c # cs) =
     (if old = [] then new @ c # py_replace old new cs
      else if prefix old (c # cs) then new @ py_replace old new (drop (length old - 1) cs)
      else c # py_replace old new cs)"

text \<open>\<open>sep.join(xs)\<close>.\<close>

fun py_join :: "'a list \<Rightarrow> 'a list list \<Rightarrow> 'a list" where
  "py_join sep [] = []"
| "py_join sep [x] = x"
| "py_join sep (x # y # ys) = x @ sep @ py_join sep (y # ys)"

text \<open>\<open>xs[i]\<close> for a non-negative literal index: \<open>IndexError\<close> out of range.\<close>

definition py_index :: "'a list \<Rightarrow> nat \<Rightarrow> py_error + 'a" where
  "py_index xs i = (if i < length xs then Inr (xs ! i) else Inl IndexError)"

text \<open>\<open>d[k]\<close> on a dictionary whose key \<open>k\<close> may be missing: \<open>KeyError\<close>.\<close>

definition py_key :: "'a option \<Rightarrow> py_error + 'a" where
  "py_key v = (case v of None \<Rightarrow> Inl KeyError | Some x \<Rightarrow> Inr x)"

text \<open>The first failure of a comprehension ends it, as the exception would.\<close>

fun map_err :: "('a \<Rightarrow> py_error + 'b) \<Rightarrow> 'a list \<Rightarrow> py_error + 'b list" where
  "map_err f [] = Inr []"
| "map_err f (x # xs) =
     (case f x of Inl e \<Rightarrow> Inl e
      | Inr y \<Rightarrow> (case map_err f xs of Inl e \<Rightarrow> Inl e | Inr ys \<Rightarrow> Inr (y # ys)))"


section \<open>The records of the monitoring backend\<close>

text \<open>
  A trigger as \<open>trigger.get\<close> returns it is a JSON object; every key the code reads is a
  field, \<open>None\<close> when the key is missing. Identifiers, priorities and timestamps are
  strings, as the backend sends them.
\<close>

record ztag =
  tag :: "pystr option"
  val :: "pystr option"

record zhost =
  name :: "pystr option"

record ack =
  message :: "pystr option"

record event =
  eventid :: "pystr option"
  acknowledges :: "ack list option"

record trigger =
  triggerid :: "pystr option"
  description :: "pystr option"
  priority :: "pystr option"
  lastchange :: "pystr option"
  hosts :: "zhost list option"
  lastEvent :: "event option"
  tags :: "ztag list option"


section \<open>Global state (lines 59-64)\<close>

record result =
  summary :: pystr
  action :: pystr

record state =
  zabbix_auth_token :: "pystr option"
  processing_events :: "pystr set"
  handled_events :: "pystr set"
  ai_memory_cache :: "pystr \<rightharpoonup> result"
  total_tokens_used :: int

definition initial_state :: state where
  "initial_state = \<lparr>zabbix_auth_token = None, processing_events = {}, handled_events = {},
                     ai_memory_cache = Map.empty, total_tokens_used = 0\<rparr>"

text \<open>Truth value of an optional string: \<open>None\<close> and \<open>""\<close> are false.\<close>

definition truthy :: "pystr option \<Rightarrow> bool" where
  "truthy v = (case v of None \<Rightarrow> False | Some s \<Rightarrow> s \<noteq> [])"


section \<open>The recovery marker\<close>

definition IA :: pystr where
  "IA = ascii ''IA:''"

definition CMD :: pystr where
  "CMD = ascii ''| CMD:''"

definition NA :: pystr where
  "NA = ascii ''N/A''"

text \<open>Line 133: \<open>f"IA: {summary} | CMD: {action}"\<close>.\<close>

definition zabbix_msg :: "pystr \<Rightarrow> pystr \<Rightarrow> pystr" where
  "zabbix_msg s a = ascii ''IA: '' @ s @ ascii '' | CMD: '' @ a"

text \<open>
  Lines 156-157, the body of the \<open>try\<close>: \<open>ack['message'].split('| CMD:')\<close>, then the
  dictionary with \<open>parts[0].replace('IA:', '').strip()\<close> and
  \<open>parts[1].strip() if len(parts) > 1 else "N/A"\<close>.
\<close>

definition recover_ack :: "pystr option \<Rightarrow> py_error + result" where
  "recover_ack m =
     (case py_key m of Inl e \<Rightarrow> Inl e
      | Inr msg \<Rightarrow>
        (case py_split CMD msg of Inl e \<Rightarrow> Inl e
         | Inr parts \<Rightarrow>
           (case py_index parts 0 of Inl e \<Rightarrow> Inl e
            | Inr p0 \<Rightarrow>
              Inr \<lparr>summary = py_strip (py_replace IA [] p0),
                   action = (if length parts > 1 then py_strip (parts ! 1) else NA)\<rparr>)))"


section \<open>Helpers and integrations (lines 66-124)\<close>

text \<open>
  One tag as text, \<open>f"{t['tag']}{sep}{t['value']}" if t['value'] else t['tag']\<close>: the
  condition reads \<open>t['value']\<close> first. \<open>format_tags_text\<close> uses \<open>":"\<close>, the dashboard
  \<open>": "\<close>.
\<close>

definition tag_text :: "pystr \<Rightarrow> ztag \<Rightarrow> py_error + pystr" where
  "tag_text sep t =
     (case py_key (val t) of Inl e \<Rightarrow> Inl e
      | Inr v \<Rightarrow>
        (case py_key (tag t) of Inl e \<Rightarrow> Inl e
         | Inr k \<Rightarrow> if v \<noteq> [] then Inr (k @ sep @ v) else Inr k))"

definition format_tags_text :: "ztag list \<Rightarrow> py_error + pystr" where
  "format_tags_text ts =
     (if ts = [] then Inr []
      else (case map_err (tag_text (ascii '':'')) (take 4 ts) of Inl e \<Rightarrow> Inl e
            | Inr xs \<Rightarrow> Inr (py_join (ascii '', '') xs)))"

text \<open>Line 137: \<open>sev_map.get(str(severity), 'Erro')\<close>.\<close>

definition sev_map :: "pystr \<Rightarrow> pystr" where
  "sev_map p =
     (if p = ascii ''1'' then ascii ''Info''
      else if p = ascii ''2'' then ascii ''Aviso''
      else if p = ascii ''3'' then ascii ''M'' @ [233] @ ascii ''dia''
      else if p = ascii ''4'' then ascii ''Alta''
      else if p = ascii ''5'' then ascii ''Cr'' @ [237] @ ascii ''tica''
      else ascii ''Erro'')"

text \<open>
  What \<open>json.loads\<close> returns for the reply of the enrichment service: an object, of which
  the code reads the keys \<open>analysis\<close> and \<open>command\<close> (string-valued, as the prompt asks;
  \<open>None\<close> when the key is missing), or any other JSON value. The reply itself carries the
  optional token usage and the outcome of decoding its content.
\<close>

datatype ai_json = JObject "pystr option" "pystr option" | JOther

record ai_response =
  usage :: "int option"
  content :: "py_error + ai_json"

definition ERRO_IA :: ai_json where
  "ERRO_IA = JObject (Some (ascii ''Erro IA'')) (Some NA)"

definition INDISPONIVEL :: pystr where
  "INDISPONIVEL = ascii ''Indispon'' @ [237] @ ascii ''vel''"

text \<open>
  \<open>analyze_with_ai\<close>, lines 112-113: the part before the service is awaited. An
  exception of \<open>format_tags_text\<close> is outside the \<open>try\<close> and leaves the function.
\<close>

definition analyze_prompt :: "pystr \<Rightarrow> pystr \<Rightarrow> ztag list \<Rightarrow> py_error + pystr" where
  "analyze_prompt problem_name host_name ts =
     (case format_tags_text ts of Inl e \<Rightarrow> Inl e
      | Inr context \<Rightarrow>
        Inr (ascii ''Contexto: '' @ context @ [10] @ ascii ''Erro: '' @ problem_name @ [10] @
             ascii ''Host: '' @ host_name @ [10] @ ascii ''Responda JSON:'' @ [10] @
             ascii ''{'' @ [34] @ ascii ''analysis'' @ [34] @ ascii '': '' @ [34] @
             ascii ''Causa (max 20 palavras)'' @ [34] @ ascii '', '' @ [34] @ ascii ''command'' @
             [34] @ ascii '': '' @ [34] @ ascii ''Comando Linux ou '' @ [39] @
             ascii ''Verificar logs'' @ [39] @ [34] @ ascii ''}''))"

text \<open>
  \<open>analyze_with_ai\<close>, lines 114-124: the \<open>try\<close> around the awaited call. The argument is
  the outcome of the call (\<open>Inl\<close> when it raised). The token counter is updated before the
  content is decoded; every exception gives the fixed dictionary of line 124.
\<close>

definition analyze_result :: "state \<Rightarrow> py_error + ai_response \<Rightarrow> state \<times> ai_json" where
  "analyze_result s out =
     (case out of Inl e \<Rightarrow> (s, ERRO_IA)
      | Inr r \<Rightarrow>
        (let s' = (case usage r of None \<Rightarrow> s
                   | Some n \<Rightarrow> s\<lparr>total_tokens_used := total_tokens_used s + n\<rparr>)
         in (case content r of Inl e \<Rightarrow> (s', ERRO_IA) | Inr j \<Rightarrow> (s', j))))"


section \<open>The enrichment task \<open>run_ai_pipeline\<close> (lines 126-141)\<close>

text \<open>
  The task is a coroutine: it runs without interruption from one suspension point to the
  next. The suspension points are the awaited calls of the three collaborators. A call of
  a collaborator is recorded; \<open>post_zabbix_comment\<close> returns at once without a token
  (line 100) and \<open>send_telegram_alert\<close> returns at once when it is not configured
  (line 73), and then the task goes on without suspending.
\<close>

record config =
  telegram_configured :: bool

record pipeline_args =
  event_id :: pystr
  problem :: pystr
  host :: pystr
  severity :: pystr
  alert_tags :: "ztag list"

datatype call =
  Analyze pystr
  | Comment pystr pystr
  | Telegram pystr pystr pystr pystr pystr "ztag list"

datatype pc = Created | AwaitAnalysis | AwaitComment pystr pystr | AwaitTelegram | Finished

text \<open>The outcome each awaited call has when the task reaches it (\<open>Inl\<close>: it raises).\<close>

record outcomes =
  analysis :: "py_error + ai_response"
  comment :: "py_error + bool"
  telegram :: "py_error + unit"

text \<open>Lines 140-141, the \<open>finally\<close> clause.\<close>

definition finally_block :: "state \<Rightarrow> pystr \<Rightarrow> state" where
  "finally_block s eid =
     (if eid \<in> processing_events s then s\<lparr>processing_events := processing_events s - {eid}\<rparr>
      else s)"

text \<open>Lines 137-138: the notification is called; the task suspends in it if it is configured.\<close>

definition task_notify ::
  "config \<Rightarrow> state \<Rightarrow> pipeline_args \<Rightarrow> pystr \<Rightarrow> pystr \<Rightarrow> state \<times> pc \<times> call list" where
  "task_notify cfg s a su ac =
     (let c = Telegram (host a) (problem a) (sev_map (severity a)) su ac (alert_tags a)
      in if telegram_configured cfg then (s, AwaitTelegram, [c])
         else (finally_block s (event_id a), Finished, [c]))"

text \<open>Lines 127-129 and 112-115: from the start of the task to the awaited analysis.\<close>

definition task_start :: "config \<Rightarrow> state \<Rightarrow> pipeline_args \<Rightarrow> state \<times> pc \<times> call list" where
  "task_start cfg s a =
     (case analyze_prompt (problem a) (host a) (alert_tags a) of
        Inl e \<Rightarrow> (finally_block s (event_id a), Finished, [])
      | Inr prompt \<Rightarrow> (s, AwaitAnalysis, [Analyze prompt]))"

text \<open>
  Lines 115-136: the analysis has come back. \<open>ai_data.get\<close> raises \<open>AttributeError\<close> on a
  value that is no object, which line 139 catches. Line 134 stores the result, line 136
  calls the acknowledgement post.
\<close>

definition task_analysed ::
  "config \<Rightarrow> state \<Rightarrow> pipeline_args \<Rightarrow> py_error + ai_response \<Rightarrow> state \<times> pc \<times> call list" where
  "task_analysed cfg s a out =
     (case analyze_result s out of
        (s1, JOther) \<Rightarrow> (finally_block s1 (event_id a), Finished, [])
      | (s1, JObject an cm) \<Rightarrow>
        (let su = (case an of None \<Rightarrow> INDISPONIVEL | Some x \<Rightarrow> x);
             ac = (case cm of None \<Rightarrow> NA | Some x \<Rightarrow> x);
             s2 = s1\<lparr>ai_memory_cache := (ai_memory_cache s1)(event_id a \<mapsto> \<lparr>summary = su, action = ac\<rparr>)\<rparr>;
             c = Comment (event_id a) (zabbix_msg su ac)
         in if truthy (zabbix_auth_token s2) then (s2, AwaitComment su ac, [c])
            else (case task_notify cfg s2 a su ac of (s3, p, cs) \<Rightarrow> (s3, p, c # cs))))"

text \<open>Lines 136-138: the acknowledgement post has come back.\<close>

definition task_commented ::
  "config \<Rightarrow> state \<Rightarrow> pipeline_args \<Rightarrow> pystr \<Rightarrow> pystr \<Rightarrow> py_error + bool \<Rightarrow> state \<times> pc \<times> call list" where
  "task_commented cfg s a su ac out =
     (case out of Inl e \<Rightarrow> (finally_block s (event_id a), Finished, [])
      | Inr ok \<Rightarrow> task_notify cfg s a su ac)"

text \<open>Lines 138-141: the notification has come back, or has raised.\<close>

definition task_notified ::
  "config \<Rightarrow> state \<Rightarrow> pipeline_args \<Rightarrow> py_error + unit \<Rightarrow> state \<times> pc \<times> call list" where
  "task_notified cfg s a out = (finally_block s (event_id a), Finished, [])"

text \<open>The task resumes at its program point and runs to the next suspension.\<close>

definition task_step ::
  "config \<Rightarrow> state \<Rightarrow> pipeline_args \<Rightarrow> pc \<Rightarrow> outcomes \<Rightarrow> state \<times> pc \<times> call list" where
  "task_step cfg s a p os =
     (case p of
        Created \<Rightarrow> task_start cfg s a
      | AwaitAnalysis \<Rightarrow> task_analysed cfg s a (analysis os)
      | AwaitComment su ac \<Rightarrow> task_commented cfg s a su ac (comment os)
      | AwaitTelegram \<Rightarrow> task_notified cfg s a (telegram os)
      | Finished \<Rightarrow> (s, Finished, []))"

text \<open>
  The whole coroutine when nothing else runs in between: at most four segments, since
  there are three awaited calls.
\<close>

definition run_ai_pipeline ::
  "config \<Rightarrow> state \<Rightarrow> pipeline_args \<Rightarrow> outcomes \<Rightarrow> state \<times> pc \<times> call list" where
  "run_ai_pipeline cfg s a os =
     (case task_step cfg s a Created os of (s1, p1, c1) \<Rightarrow>
      (case task_step cfg s1 a p1 os of (s2, p2, c2) \<Rightarrow>
       (case task_step cfg s2 a p2 os of (s3, p3, c3) \<Rightarrow>
        (case task_step cfg s3 a p3 os of (s4, p4, c4) \<Rightarrow> (s4, p4, c1 @ c2 @ c3 @ c4)))))"


section \<open>\<open>process_queue\<close> (lines 143-164)\<close>

text \<open>Line 146: \<open>t.get('lastEvent', {})\<close>.\<close>

definition last_event :: "trigger \<Rightarrow> event" where
  "last_event t =
     (case lastEvent t of None \<Rightarrow> \<lparr>eventid = None, acknowledges = None\<rparr> | Some e \<Rightarrow> e)"

text \<open>\<open>t.get('tags', [])\<close> (lines 164 and 203).\<close>

definition trigger_tags :: "trigger \<Rightarrow> ztag list" where
  "trigger_tags t = (case tags t of None \<Rightarrow> [] | Some ts \<Rightarrow> ts)"

text \<open>Line 152: \<open>ev.get('acknowledges', [])\<close>.\<close>

definition event_acks :: "event \<Rightarrow> ack list" where
  "event_acks ev = (case acknowledges ev of None \<Rightarrow> [] | Some ks \<Rightarrow> ks)"

text \<open>Line 153: \<open>"IA:" in ack.get('message', '')\<close>.\<close>

definition has_marker :: "ack \<Rightarrow> bool" where
  "has_marker k = py_contains IA (case message k of None \<Rightarrow> [] | Some m \<Rightarrow> m)"

text \<open>
  Line 164, the arguments of \<open>run_ai_pipeline\<close> in the order Python evaluates them:
  \<open>t['description']\<close>, \<open>t['hosts'][0]['name']\<close>, \<open>t['priority']\<close>, \<open>t.get('tags', [])\<close>.
\<close>

definition pipeline_args_of :: "pystr \<Rightarrow> trigger \<Rightarrow> py_error + pipeline_args" where
  "pipeline_args_of eid t =
     (case py_key (description t) of Inl e \<Rightarrow> Inl e
      | Inr d \<Rightarrow>
        (case py_key (hosts t) of Inl e \<Rightarrow> Inl e
         | Inr hs \<Rightarrow>
           (case py_index hs 0 of Inl e \<Rightarrow> Inl e
            | Inr h \<Rightarrow>
              (case py_key (name h) of Inl e \<Rightarrow> Inl e
               | Inr n \<Rightarrow>
                 (case py_key (priority t) of Inl e \<Rightarrow> Inl e
                  | Inr p \<Rightarrow>
                    Inr \<lparr>event_id = eid, problem = d, host = n, severity = p,
                         alert_tags = trigger_tags t\<rparr>)))))"

text \<open>
  One iteration of the loop of line 145. The result is the state, the tasks created by
  \<open>asyncio.create_task\<close>, and the exception that leaves the loop, if any. Lines 162-163
  change the state before the arguments of line 164 are evaluated. In the recovery
  branch an exception of lines 156-157 is dropped by \<open>except: pass\<close>.
\<close>

definition process_trigger :: "state \<Rightarrow> trigger \<Rightarrow> state \<times> pipeline_args list \<times> py_error option" where
  "process_trigger s t =
     (let ev = last_event t in
      case eventid ev of None \<Rightarrow> (s, [], None)
      | Some eid \<Rightarrow>
        if eid = [] \<or> eid \<in> processing_events s \<or> eid \<in> handled_events s then (s, [], None)
        else if eid \<in> dom (ai_memory_cache s) then (s, [], None)
        else (case find has_marker (event_acks ev) of
                Some k \<Rightarrow>
                  (case recover_ack (message k) of Inl e \<Rightarrow> (s, [], None)
                   | Inr r \<Rightarrow> (s\<lparr>ai_memory_cache := (ai_memory_cache s)(eid \<mapsto> r)\<rparr>, [], None))
              | None \<Rightarrow>
                  (let s' = s\<lparr>processing_events := insert eid (processing_events s),
                              handled_events := insert eid (handled_events s)\<rparr>
                   in case pipeline_args_of eid t of Inl e \<Rightarrow> (s', [], Some e)
                      | Inr a \<Rightarrow> (s', [a], None))))"

fun process_queue :: "state \<Rightarrow> trigger list \<Rightarrow> state \<times> pipeline_args list \<times> py_error option" where
  "process_queue s [] = (s, [], None)"
| "process_queue s (t # ts) =
     (case process_trigger s t of
        (s', new, Some e) \<Rightarrow> (s', new, Some e)
      | (s', new, None) \<Rightarrow>
          (case process_queue s' ts of (s'', rest, r) \<Rightarrow> (s'', new @ rest, r)))"


section \<open>\<open>format_dashboard\<close> (lines 193-210)\<close>


record dash_entry =
  e_id :: pystr
  e_host :: pystr
  e_problem :: pystr
  e_severity :: pystr
  e_time :: pystr
  e_tags :: "pystr list"
  ai_summary :: pystr
  ai_action :: "pystr option"


definition AGUARDANDO :: pystr where
  "AGUARDANDO = ascii ''Aguardando...''"

definition PROCESSANDO :: pystr where
  "PROCESSANDO = [9889, 32] @ ascii ''Processando...''"

text \<open>
  Lines 200-209 for one trigger. \<open>hhmm\<close> stands for
  \<open>datetime.fromtimestamp(int(x)).strftime('%H:%M')\<close>, which depends on the time zone of
  the host and raises on text that is no number. The cache holds only dictionaries with
  both keys, so \<open>.get('summary', ...)\<close> finds the summary.
\<close>

definition format_entry ::
  "state \<Rightarrow> (pystr \<Rightarrow> py_error + pystr) \<Rightarrow> trigger \<Rightarrow> py_error + dash_entry" where
  "format_entry s hhmm t =
     (let eid = eventid (last_event t);
          hit = (case eid of None \<Rightarrow> None | Some e \<Rightarrow> ai_memory_cache s e);
          su = (case hit of Some r \<Rightarrow> summary r
                | None \<Rightarrow>
                  (case eid of None \<Rightarrow> AGUARDANDO
                   | Some e \<Rightarrow> if e \<in> processing_events s then PROCESSANDO else AGUARDANDO));
          ac = map_option action hit
      in case map_err (tag_text (ascii '': '')) (take 4 (trigger_tags t)) of
           Inl e \<Rightarrow> Inl e
         | Inr frontend_tags \<Rightarrow>
           (case (if truthy eid then py_key eid else py_key (triggerid t)) of Inl e \<Rightarrow> Inl e
            | Inr i \<Rightarrow>
              (case py_key (hosts t) of Inl e \<Rightarrow> Inl e
               | Inr hs \<Rightarrow>
                 (case (if hs \<noteq> [] then py_key (name (hd hs)) else Inr (ascii ''?'')) of
                    Inl e \<Rightarrow> Inl e
                  | Inr h \<Rightarrow>
                    (case py_key (description t) of Inl e \<Rightarrow> Inl e
                     | Inr d \<Rightarrow>
                       (case py_key (priority t) of Inl e \<Rightarrow> Inl e
                        | Inr p \<Rightarrow>
                          (case py_key (lastchange t) of Inl e \<Rightarrow> Inl e
                           | Inr lc \<Rightarrow>
                             (case hhmm lc of Inl e \<Rightarrow> Inl e
                              | Inr tm \<Rightarrow>
                                Inr \<lparr>e_id = i, e_host = h, e_problem = d, e_severity = p,
                                     e_time = tm, e_tags = frontend_tags, ai_summary = su,
                                     ai_action = ac\<rparr>))))))))"




section \<open>\<open>ConnectionManager\<close> (lines 41-55)\<close>

text \<open>
  \<open>active_connections\<close> is a list of websockets, here of any type \<open>'c\<close>. Whether
  \<open>send_text\<close> raises is a property of the connection, given as \<open>fails\<close>. \<open>broadcast\<close>
  walks a copy of the list taken at the start of the call; its result is the list after
  the call together with the connections \<open>send_text\<close> was called on, in order.
\<close>

definition connect :: "'c \<Rightarrow> 'c list \<Rightarrow> 'c list" where
  "connect w active_connections = active_connections @ [w]"

definition disconnect :: "'c \<Rightarrow> 'c list \<Rightarrow> 'c list" where
  "disconnect w active_connections =
     (if w \<in> set active_connections then remove1 w active_connections else active_connections)"

fun broadcast_loop :: "('c \<Rightarrow> bool) \<Rightarrow> 'c list \<Rightarrow> 'c list \<Rightarrow> 'c list \<times> 'c list" where
  "broadcast_loop fails [] active_connections = (active_connections, [])"
| "broadcast_loop fails (c # cs) active_connections =
     (case broadcast_loop fails cs
             (if fails c then disconnect c active_connections else active_connections) of
        (final, sent) \<Rightarrow> (final, c # sent))"

definition broadcast :: "('c \<Rightarrow> bool) \<Rightarrow> 'c list \<Rightarrow> 'c list \<times> 'c list" where
  "broadcast fails active_connections = broadcast_loop fails active_connections active_connections"


section \<open>The running process\<close>

text \<open>
  The process is single-threaded: between two suspension points a coroutine runs alone.
  Its state is the global state, the tasks created so far with their program points, in
  the order of creation, and the calls made to the collaborators, each with the event
  of the task that made it. One step is one of
  \<^item> \<open>Login\<close>: line 169 of \<open>fetch_data\<close> stores the token it got (without one, line 170
    returns);
  \<^item> \<open>BackendError\<close>: line 186 drops the token;
  \<^item> \<open>Triggers\<close>: line 189 runs \<open>process_queue\<close> on the fetched list, which has no
    suspension point; \<open>fetch_data\<close> gets there only with a token;
  \<^item> \<open>Resume\<close>: a task runs from its program point to its next suspension.
  After every step the state can be read by the scheduler, which builds the snapshot.
\<close>

record sys =
  globals :: state
  tasks :: "(pipeline_args \<times> pc) list"
  calls :: "(pystr \<times> call) list"

datatype input =
  Login "pystr option"
  | BackendError
  | Triggers "trigger list"
  | Resume nat outcomes

definition initial_sys :: sys where
  "initial_sys = \<lparr>globals = initial_state, tasks = [], calls = []\<rparr>"

definition step :: "config \<Rightarrow> sys \<Rightarrow> input \<Rightarrow> sys" where
  "step cfg y i =
     (case i of
        Login tok \<Rightarrow>
          (if truthy (zabbix_auth_token (globals y)) then y
           else y\<lparr>globals := (globals y)\<lparr>zabbix_auth_token := tok\<rparr>\<rparr>)
      | BackendError \<Rightarrow> y\<lparr>globals := (globals y)\<lparr>zabbix_auth_token := None\<rparr>\<rparr>
      | Triggers ts \<Rightarrow>
          (if truthy (zabbix_auth_token (globals y)) then
             (case process_queue (globals y) ts of
                (s', new, r) \<Rightarrow> y\<lparr>globals := s', tasks := tasks y @ map (\<lambda>a. (a, Created)) new\<rparr>)
           else y)
      | Resume n os \<Rightarrow>
          (if n < length (tasks y) then
             (case tasks y ! n of
                (a, p) \<Rightarrow>
                  (case task_step cfg (globals y) a p os of
                     (s', p', cs) \<Rightarrow>
                       y\<lparr>globals := s', tasks := (tasks y)[n := (a, p')],
                         calls := calls y @ map (Pair (event_id a)) cs\<rparr>))
           else y))"

definition run :: "config \<Rightarrow> sys \<Rightarrow> input list \<Rightarrow> sys" where
  "run cfg y ins = foldl (step cfg) y ins"

text \<open>The events dispatched so far, and the events whose analysis was requested.\<close>

definition dispatched :: "sys \<Rightarrow> pystr list" where
  "dispatched y = map (\<lambda>(a, p). event_id a) (tasks y)"

fun is_analyze :: "pystr \<times> call \<Rightarrow> bool" where
  "is_analyze (e, Analyze q) = True"
| "is_analyze (e, c) = False"

definition analysed :: "sys \<Rightarrow> pystr list" where
  "analysed y = map fst (filter is_analyze (calls y))"

text \<open>A task has stored its result and has not finished yet.\<close>

fun stored_unfinished :: "pc \<Rightarrow> bool" where
  "stored_unfinished (AwaitComment su ac) = True"
| "stored_unfinished AwaitTelegram = True"
| "stored_unfinished p = False"


section \<open>The statements in the words of the specification\<close>

text \<open>
  The parse as the specification words it, for comparison with lines 156-157: the summary
  is the text before the separator with the prefix \<open>IA:\<close> removed, trimmed; the action is
  the text after the separator, trimmed, or \<open>N/A\<close> without a separator.
\<close>

fun before_sep :: "'a list \<Rightarrow> 'a list \<Rightarrow> 'a list" where
  "before_sep sep [] = []"
| "before_sep sep (c # cs) = (if prefix sep (c # cs) then [] else c # before_sep sep cs)"

fun after_sep :: "'a list \<Rightarrow> 'a list \<Rightarrow> 'a list" where
  "after_sep sep [] = []"
| "after_sep sep (c # cs) =
     (if prefix sep (c # cs) then drop (length sep) (c # cs) else after_sep sep cs)"

definition remove_prefix :: "'a list \<Rightarrow> 'a list \<Rightarrow> 'a list" where
  "remove_prefix p s = (if prefix p s then drop (length p) s else s)"

definition worded_parse :: "pystr \<Rightarrow> result" where
  "worded_parse msg =
     \<lparr>summary = py_strip (remove_prefix IA (before_sep CMD msg)),
      action = (if py_contains CMD msg then py_strip (after_sep CMD msg) else NA)\<rparr>"

text \<open>
  What lines 156-157 compute, in the same terms: every \<open>IA:\<close> is removed from the text
  before the first separator, and the action ends at the second separator.
\<close>

definition coded_parse :: "pystr \<Rightarrow> result" where
  "coded_parse msg =
     \<lparr>summary = py_strip (py_replace IA [] (before_sep CMD msg)),
      action = (if py_contains CMD msg then py_strip (before_sep CMD (after_sep CMD msg))
                else NA)\<rparr>"

text \<open>The fallback the specification names.\<close>

definition worded_fallback :: result where
  "worded_fallback = \<lparr>summary = ascii ''analysis unavailable'', action = ascii ''none''\<rparr>"

text \<open>The fallback of line 124.\<close>

definition coded_fallback :: result where
  "coded_fallback = \<lparr>summary = ascii ''Erro IA'', action = ascii ''N/A''\<rparr>"

text \<open>The enrichment service failed: the call raised, or its content does not decode.\<close>

definition client_failed :: "py_error + ai_response \<Rightarrow> bool" where
  "client_failed out =
     (case out of Inl e \<Rightarrow> True
      | Inr r \<Rightarrow> (case content r of Inl e \<Rightarrow> True | Inr j \<Rightarrow> False))"



section \<open>Notions used in the proofs\<close>

text \<open>
  No occurrence of \<open>x\<close> can begin in a text that does not contain \<open>x\<close> and end in
  \<open>q\<close> behind it: no proper non-empty end of \<open>x\<close> starts \<open>q\<close>.
\<close>

definition no_straddle :: "'a list \<Rightarrow> 'a list \<Rightarrow> bool" where
  "no_straddle x q \<longleftrightarrow> (\<forall>t us. x = t @ us \<and> t \<noteq> [] \<and> us \<noteq> [] \<longrightarrow> \<not> prefix us q)"

text \<open>The number of segments a task can still run.\<close>

fun rank :: "pc \<Rightarrow> nat" where
  "rank Created = 4"
| "rank AwaitAnalysis = 3"
| "rank (AwaitComment su ac) = 2"
| "rank AwaitTelegram = 1"
| "rank Finished = 0"

text \<open>
  What one run of the loop of \<open>process_queue\<close> can do to the state: the three structures
  only grow, no event becomes in-flight and stored at once, every event that becomes
  in-flight is handled, and the created tasks are for different events that were in none
  of the structures before and are handled afterwards.
\<close>

definition admits :: "state \<Rightarrow> state \<Rightarrow> pipeline_args list \<Rightarrow> bool" where
  "admits s s' new \<longleftrightarrow>
     processing_events s \<subseteq> processing_events s' \<and>
     handled_events s \<subseteq> handled_events s' \<and>
     dom (ai_memory_cache s) \<subseteq> dom (ai_memory_cache s') \<and>
     processing_events s' \<inter> dom (ai_memory_cache s')
       \<subseteq> processing_events s \<inter> dom (ai_memory_cache s) \<and>
     processing_events s' \<subseteq> processing_events s \<union> handled_events s' \<and>
     distinct (map event_id new) \<and>
     event_id ` set new \<inter>
       (handled_events s \<union> processing_events s \<union> dom (ai_memory_cache s)) = {} \<and>
     event_id ` set new \<subseteq> handled_events s' \<and>
     zabbix_auth_token s' = zabbix_auth_token s"


section \<open>Values for the examples\<close>

text \<open>A trigger with one event and given identifier, priority, hosts, acknowledgements and tags.\<close>

definition mk_trigger :: "string \<Rightarrow> string \<Rightarrow> zhost list \<Rightarrow> ack list \<Rightarrow> ztag list \<Rightarrow> trigger" where
  "mk_trigger eid prio hs ks ts =
     \<lparr>triggerid = Some (ascii ''T'' @ ascii eid), description = Some (ascii ''disk''),
      priority = Some (ascii prio), lastchange = Some (ascii ''0''), hosts = Some hs,
      lastEvent = Some \<lparr>eventid = Some (ascii eid), acknowledges = Some ks\<rparr>,
      tags = Some ts\<rparr>"

definition srv :: zhost where
  "srv = \<lparr>name = Some (ascii ''srv'')\<rparr>"

definition ack_text :: "string \<Rightarrow> ack" where
  "ack_text m = \<lparr>message = Some (ascii m)\<rparr>"



definition cpu_spike :: trigger where
  "cpu_spike = mk_trigger ''E2'' ''3'' [srv] [ack_text ''IA: cpu spike | CMD: top''] []"

definition two_separators :: trigger where
  "two_separators = mk_trigger ''E2'' ''3'' [srv] [ack_text ''IA: a | CMD: b | CMD: c''] []"

definition no_host :: trigger where
  "no_host = mk_trigger ''E1'' ''3'' [] [] []"

definition disk_full :: trigger where
  "disk_full = mk_trigger ''E3'' ''5'' [srv] [] []"

text \<open>The arguments of the task of \<open>disk_full\<close>, and of a task for another event.\<close>

definition disk_full_args :: pipeline_args where
  "disk_full_args = \<lparr>event_id = ascii ''E3'', problem = ascii ''disk'', host = ascii ''srv'',
                      severity = ascii ''5'', alert_tags = []\<rparr>"

definition disk_alert :: pipeline_args where
  "disk_alert = \<lparr>event_id = ascii ''E1'', problem = ascii ''disk'', host = ascii ''srv'',
                  severity = ascii ''5'', alert_tags = []\<rparr>"

text \<open>States, configurations, outcomes of the awaited calls and a clock.\<close>

definition logged_in :: state where
  "logged_in = initial_state\<lparr>zabbix_auth_token := Some (ascii ''tok'')\<rparr>"

definition no_telegram :: config where
  "no_telegram = \<lparr>telegram_configured = False\<rparr>"

definition with_telegram :: config where
  "with_telegram = \<lparr>telegram_configured = True\<rparr>"

definition all_fail :: outcomes where
  "all_fail = \<lparr>analysis = Inl ExternalError, comment = Inl ExternalError,
               telegram = Inl ExternalError\<rparr>"

definition reply :: "string \<Rightarrow> string \<Rightarrow> outcomes" where
  "reply su ac =
     \<lparr>analysis = Inr \<lparr>usage = Some 42,
                       content = Inr (JObject (Some (ascii su)) (Some (ascii ac)))\<rparr>,
      comment = Inr True, telegram = Inr ()\<rparr>"


text \<open>
  Runs: the process logs in and fetches one trigger; then the task of \<open>disk_full\<close>
  starts and its analysis comes back.
\<close>

definition first_cycle :: "trigger \<Rightarrow> input list" where
  "first_cycle t = [Login (Some (ascii ''tok'')), Triggers [t]]"

definition until_stored :: "input list" where
  "until_stored = first_cycle disk_full @
     [Resume 0 (reply ''disk full'' ''df -h''), Resume 0 (reply ''disk full'' ''df -h'')]"


section \<open>Strings\<close>

lemma py_contains_sublist: "py_contains x s \<longleftrightarrow> sublist x s"
  by (induction s) (auto simp: sublist_Cons_right)

lemma split_go_nonempty: "split_go x s \<noteq> []"
  by (induction x s rule: split_go.induct) (auto split: list.splits)

lemma no_prefix_straddle:
  assumes "\<not> prefix x u" "u \<noteq> []" "no_straddle x q"
  shows "\<not> prefix x (u @ q)"
proof
  assume "prefix x (u @ q)"
  with assms(1) obtain us where us: "x = u @ us" "prefix us q"
    by (auto simp: prefix_append)
  with assms(1) have "us \<noteq> []" by auto
  with us assms(2,3) show False by (auto simp: no_straddle_def)
qed

lemma split_go_append:
  "\<not> py_contains x s \<Longrightarrow> no_straddle x q \<Longrightarrow>
   split_go x (s @ q) = (s @ hd (split_go x q)) # tl (split_go x q)"
proof (induction s)
  case Nil
  then show ?case using split_go_nonempty[of x q] by simp
next
  case (Cons c cs)
  then have "\<not> prefix x (c # cs)" "\<not> py_contains x cs" by auto
  with Cons.prems have "\<not> prefix x ((c # cs) @ q)" by (intro no_prefix_straddle) auto
  with Cons \<open>\<not> py_contains x cs\<close> show ?case by simp
qed

lemma split_go_none: "x \<noteq> [] \<Longrightarrow> \<not> py_contains x s \<Longrightarrow> split_go x s = [s]"
  by (induction s) auto

lemma py_replace_append:
  "x \<noteq> [] \<Longrightarrow> \<not> py_contains x s \<Longrightarrow> no_straddle x q \<Longrightarrow>
   py_replace x n (s @ q) = s @ py_replace x n q"
proof (induction s)
  case Nil
  then show ?case by simp
next
  case (Cons c cs)
  then have "\<not> prefix x (c # cs)" "\<not> py_contains x cs" by auto
  with Cons.prems have "\<not> prefix x ((c # cs) @ q)" by (intro no_prefix_straddle) auto
  with Cons \<open>\<not> py_contains x cs\<close> show ?case by simp
qed

lemma no_straddle_CMD: "no_straddle CMD (ascii '' | CMD: '' @ a)"
  by (auto simp: no_straddle_def CMD_def ascii_def Cons_eq_append_conv)

lemma no_straddle_IA: "no_straddle IA [32]"
  by (auto simp: no_straddle_def IA_def ascii_def Cons_eq_append_conv)

lemma py_isspace_32: "py_isspace 32"
  by (simp add: py_isspace_def)

lemma py_strip_space_left: "py_strip (32 # s) = py_strip s"
  by (simp add: py_strip_def py_isspace_32)

lemma py_strip_space_right: "py_strip (s @ [32]) = py_strip s"
proof (cases "\<forall>c\<in>set s. py_isspace c")
  case True
  then have "dropWhile py_isspace (s @ [32]) = []" and "dropWhile py_isspace s = []"
    by (simp_all add: py_isspace_32 dropWhile_eq_Nil_conv)
  then have "dropWhile py_isspace (s @ [32]) = dropWhile py_isspace s"
    by (simp only:)
  then show ?thesis by (simp only: py_strip_def)
next
  case False
  then obtain c where "c \<in> set s" "\<not> py_isspace c" by auto
  then have "dropWhile py_isspace (s @ [32]) = dropWhile py_isspace s @ [32]"
    by (rule dropWhile_append1)
  then show ?thesis by (simp add: py_strip_def py_isspace_32)
qed


section \<open>The marker written by the task and read by the recovery\<close>

text \<open>
  C3, as stated: for every summary and action, the text of line 133 parsed by lines
  156-157 gives the summary and the action back. This fails where the summary itself
  contains \<open>IA:\<close>, which \<open>replace\<close> removes wherever it stands.
\<close>

theorem marker_round_trip_counterexample:
  "recover_ack (Some (zabbix_msg (ascii ''erro IA: x'') (ascii ''top'')))
   \<noteq> Inr \<lparr>summary = ascii ''erro IA: x'', action = ascii ''top''\<rparr>"
  by (simp add: recover_ack_def zabbix_msg_def py_key_def py_split_def py_index_def
      CMD_def IA_def ascii_def py_strip_def py_isspace_def)

text \<open>
  C3, amended: the round trip holds for every summary without leading or trailing
  whitespace that contains neither \<open>IA:\<close> nor \<open>| CMD:\<close>, and every action without
  leading or trailing whitespace that does not contain \<open>| CMD:\<close>.
\<close>

theorem marker_round_trip:
  assumes s: "py_strip s = s" "\<not> py_contains IA s" "\<not> py_contains CMD s"
    and a: "py_strip a = a" "\<not> py_contains CMD a"
  shows "recover_ack (Some (zabbix_msg s a)) = Inr \<lparr>summary = s, action = a\<rparr>"
proof -
  have pre: "\<not> py_contains CMD (ascii ''IA: '' @ s)"
    using s(3) by (simp add: CMD_def ascii_def)
  have tail: "split_go CMD (ascii '' | CMD: '' @ a) = [[32], 32 # a]"
  proof -
    have "\<not> py_contains CMD (32 # a)" using a(2) by (simp add: CMD_def ascii_def)
    then have "split_go CMD (32 # a) = [32 # a]"
      by (intro split_go_none) (simp_all add: CMD_def ascii_def)
    then show ?thesis by (simp add: CMD_def ascii_def)
  qed
  have "zabbix_msg s a = (ascii ''IA: '' @ s) @ (ascii '' | CMD: '' @ a)"
    by (simp add: zabbix_msg_def)
  then have parts: "split_go CMD (zabbix_msg s a) = [ascii ''IA: '' @ s @ [32], 32 # a]"
    using split_go_append[OF pre no_straddle_CMD, of a] tail by simp
  have "py_replace IA [] (s @ [32]) = s @ [32]"
    using py_replace_append[OF _ s(2) no_straddle_IA, of "[]"] by (simp add: IA_def ascii_def)
  then have repl: "py_replace IA [] (ascii ''IA: '' @ s @ [32]) = 32 # s @ [32]"
    by (simp add: IA_def ascii_def)
  have "py_strip (32 # s @ [32]) = s"
    using py_strip_space_right[of "32 # s"] s(1) by (simp add: py_strip_space_left)
  moreover have "py_strip (32 # a) = a" using a(1) by (simp add: py_strip_space_left)
  moreover have "CMD \<noteq> []" by (simp add: CMD_def ascii_def)
  ultimately show ?thesis
    using parts repl
    by (simp add: recover_ack_def py_key_def py_split_def py_index_def)
qed

theorem marker_round_trip_witness:
  "py_strip (ascii ''disk full'') = ascii ''disk full''
   \<and> \<not> py_contains IA (ascii ''disk full'') \<and> \<not> py_contains CMD (ascii ''disk full'')
   \<and> py_strip (ascii ''df -h'') = ascii ''df -h'' \<and> \<not> py_contains CMD (ascii ''df -h'')
   \<and> recover_ack (Some (zabbix_msg (ascii ''disk full'') (ascii ''df -h'')))
     = Inr \<lparr>summary = ascii ''disk full'', action = ascii ''df -h''\<rparr>"
proof -
  have h1: "py_strip (ascii ''disk full'') = ascii ''disk full''"
    by (simp add: ascii_def py_strip_def py_isspace_def)
  have h2: "\<not> py_contains IA (ascii ''disk full'')"
    by (simp add: ascii_def IA_def)
  have h3: "\<not> py_contains CMD (ascii ''disk full'')"
    by (simp add: ascii_def CMD_def)
  have h4: "py_strip (ascii ''df -h'') = ascii ''df -h''"
    by (simp add: ascii_def py_strip_def py_isspace_def)
  have h5: "\<not> py_contains CMD (ascii ''df -h'')"
    by (simp add: ascii_def CMD_def)
  from marker_round_trip[OF h1 h2 h3 h4 h5] h1 h2 h3 h4 h5 show ?thesis by blast
qed
text \<open>
  Each of the other conditions is needed as well: a summary with a leading blank or with
  a separator, and an action with a trailing blank or with a separator, do not come back.
\<close>

lemma marker_round_trip_limits:
  "recover_ack (Some (zabbix_msg (ascii '' x'') (ascii ''top'')))
     = Inr \<lparr>summary = ascii ''x'', action = ascii ''top''\<rparr>"
  "recover_ack (Some (zabbix_msg (ascii ''a | CMD: b'') (ascii ''top'')))
     = Inr \<lparr>summary = ascii ''a'', action = ascii ''b''\<rparr>"
  "recover_ack (Some (zabbix_msg (ascii ''x'') (ascii ''top '')))
     = Inr \<lparr>summary = ascii ''x'', action = ascii ''top''\<rparr>"
  "recover_ack (Some (zabbix_msg (ascii ''x'') (ascii ''ps | CMD: top'')))
     = Inr \<lparr>summary = ascii ''x'', action = ascii ''ps''\<rparr>"
  by (simp_all add: recover_ack_def zabbix_msg_def py_key_def py_split_def py_index_def CMD_def
      IA_def NA_def ascii_def py_strip_def py_isspace_def)


section \<open>The broadcast hub\<close>

lemma broadcast_loop_filter:
  "\<forall>x\<in>set pre. \<not> fails x \<Longrightarrow>
   broadcast_loop fails cs (pre @ cs) = (pre @ filter (\<lambda>c. \<not> fails c) cs, cs)"
proof (induction cs arbitrary: pre)
  case Nil
  then show ?case by simp
next
  case (Cons c cs)
  show ?case
  proof (cases "fails c")
    case True
    with Cons.prems have "c \<notin> set pre" by auto
    then have "disconnect c (pre @ c # cs) = pre @ cs"
      by (simp add: disconnect_def remove1_append)
    with True Cons.IH[OF Cons.prems] show ?thesis by simp
  next
    case False
    with Cons.prems have "\<forall>x\<in>set (pre @ [c]). \<not> fails x" by auto
    from Cons.IH[OF this] False show ?thesis by simp
  qed
qed

text \<open>
  C9: in one call of \<open>broadcast\<close>, \<open>send_text\<close> is called on every connection that was
  in the list when the call began, in order, also behind one that raised; the list after
  the call holds exactly the connections whose send did not raise, in their order; so the
  next call, whatever fails then, sends to those only.
\<close>

theorem broadcast_prunes_failed:
  "broadcast fails conns = (filter (\<lambda>c. \<not> fails c) conns, conns)
   \<and> snd (broadcast fails2 (fst (broadcast fails conns))) = filter (\<lambda>c. \<not> fails c) conns"
proof -
  have 1: "broadcast fails conns = (filter (\<lambda>c. \<not> fails c) conns, conns)" for fails and conns :: "'a list"
    using broadcast_loop_filter[of "[]" fails conns] by (simp add: broadcast_def)
  show ?thesis by (simp add: 1)
qed


section \<open>The snapshot\<close>












section \<open>The enrichment task\<close>

lemma finally_block_processing [simp]:
  "processing_events (finally_block s e) = processing_events s - {e}"
  by (auto simp: finally_block_def)

lemma finally_block_other [simp]:
  "handled_events (finally_block s e) = handled_events s"
  "ai_memory_cache (finally_block s e) = ai_memory_cache s"
  "zabbix_auth_token (finally_block s e) = zabbix_auth_token s"
  "total_tokens_used (finally_block s e) = total_tokens_used s"
  by (simp_all add: finally_block_def)

lemma analyze_result_frame:
  "analyze_result s out = (s1, j) \<Longrightarrow>
   processing_events s1 = processing_events s \<and> handled_events s1 = handled_events s \<and>
   ai_memory_cache s1 = ai_memory_cache s \<and> zabbix_auth_token s1 = zabbix_auth_token s"
  by (auto simp: analyze_result_def Let_def split: sum.splits option.splits)

lemma task_step_finished:
  "task_step cfg s a p os = (s', Finished, cs) \<Longrightarrow> p \<noteq> Finished \<Longrightarrow>
   event_id a \<notin> processing_events s'"
  by (auto simp: task_step_def task_start_def task_analysed_def task_commented_def
      task_notified_def task_notify_def Let_def
      split: pc.splits sum.splits prod.splits ai_json.splits if_splits dest: analyze_result_frame)

lemma rank_0: "rank p = 0 \<longleftrightarrow> p = Finished"
  by (cases p) auto

lemma task_step_rank:
  "task_step cfg s a p os = (s', p', cs) \<Longrightarrow>
   rank p' < rank p \<or> (p = Finished \<and> p' = Finished \<and> s' = s \<and> cs = [])"
  by (auto simp: task_step_def task_start_def task_analysed_def task_commented_def
      task_notified_def task_notify_def Let_def
      split: pc.splits sum.splits prod.splits ai_json.splits if_splits)

lemma task_step_cleared:
  assumes "task_step cfg s a p os = (s', p', cs)"
    and "p = Finished \<longrightarrow> event_id a \<notin> processing_events s"
  shows "p' = Finished \<longrightarrow> event_id a \<notin> processing_events s'"
proof (cases "p = Finished")
  case True
  with assms task_step_rank[OF assms(1)] show ?thesis by auto
next
  case False
  with assms(1) show ?thesis by (auto dest: task_step_finished)
qed

lemma run_ai_pipeline_finishes:
  "\<exists>s' cs. run_ai_pipeline cfg s a os = (s', Finished, cs) \<and> event_id a \<notin> processing_events s'"
proof -
  obtain s1 p1 c1 where 1: "task_step cfg s a Created os = (s1, p1, c1)"
    by (cases "task_step cfg s a Created os") auto
  obtain s2 p2 c2 where 2: "task_step cfg s1 a p1 os = (s2, p2, c2)"
    by (cases "task_step cfg s1 a p1 os") auto
  obtain s3 p3 c3 where 3: "task_step cfg s2 a p2 os = (s3, p3, c3)"
    by (cases "task_step cfg s2 a p2 os") auto
  obtain s4 p4 c4 where 4: "task_step cfg s3 a p3 os = (s4, p4, c4)"
    by (cases "task_step cfg s3 a p3 os") auto
  from task_step_rank[OF 1] have "rank p1 \<le> 3" by auto
  with task_step_rank[OF 2] have "rank p2 \<le> 2" by auto
  with task_step_rank[OF 3] have "rank p3 \<le> 1" by auto
  with task_step_rank[OF 4] have "rank p4 = 0" by auto
  then have fin: "p4 = Finished" by (simp add: rank_0)
  have "p1 = Finished \<longrightarrow> event_id a \<notin> processing_events s1"
    using task_step_cleared[OF 1] by simp
  then have "p2 = Finished \<longrightarrow> event_id a \<notin> processing_events s2"
    by (rule task_step_cleared[OF 2])
  then have "p3 = Finished \<longrightarrow> event_id a \<notin> processing_events s3"
    by (rule task_step_cleared[OF 3])
  then have "p4 = Finished \<longrightarrow> event_id a \<notin> processing_events s4"
    by (rule task_step_cleared[OF 4])
  with fin 1 2 3 4 show ?thesis by (simp add: run_ai_pipeline_def)
qed

lemma task_step_frame:
  "task_step cfg s a p os = (s', p', cs) \<Longrightarrow>
   handled_events s' = handled_events s \<and> zabbix_auth_token s' = zabbix_auth_token s \<and>
   (processing_events s' = processing_events s \<or>
    processing_events s' = processing_events s - {event_id a}) \<and>
   (\<forall>e. e \<noteq> event_id a \<longrightarrow> ai_memory_cache s' e = ai_memory_cache s e) \<and>
   (p \<noteq> AwaitAnalysis \<longrightarrow> ai_memory_cache s' = ai_memory_cache s)"
  by (auto simp: task_step_def task_start_def task_analysed_def task_commented_def
      task_notified_def task_notify_def Let_def
      split: pc.splits sum.splits prod.splits ai_json.splits if_splits dest!: analyze_result_frame)

lemma task_analysed_failed:
  assumes "client_failed out" "task_analysed cfg s a out = (s', p, cs)"
  shows "ai_memory_cache s' = (ai_memory_cache s)(event_id a \<mapsto> coded_fallback)"
  using assms
  by (auto simp: task_analysed_def client_failed_def analyze_result_def ERRO_IA_def task_notify_def
      coded_fallback_def NA_def Let_def split: sum.splits option.splits if_splits)

text \<open>
  C7, as stated: a failure of the enrichment service stores the summary
  \<open>analysis unavailable\<close> and the action \<open>none\<close>. The task stores the dictionary of
  line 124 instead.
\<close>

theorem enrichment_failure_fallback_counterexample:
  "ai_memory_cache (fst (run_ai_pipeline no_telegram logged_in disk_alert all_fail)) (ascii ''E1'')
   \<noteq> Some worded_fallback"
  by (simp add: run_ai_pipeline_def task_step_def task_start_def task_analysed_def task_commented_def
      task_notified_def task_notify_def analyze_prompt_def format_tags_text_def analyze_result_def
      all_fail_def no_telegram_def logged_in_def initial_state_def ERRO_IA_def NA_def truthy_def
      finally_block_def disk_alert_def worded_fallback_def Let_def ascii_def)

text \<open>
  C7, amended: when the call of the enrichment service raises or its content does not
  decode, the task stores the fixed result of line 124, summary \<open>Erro IA\<close> and action
  \<open>N/A\<close>, for its event; it ends normally, whatever the later calls do, removes its
  event from the in-flight set and changes no other entry of the three structures.
\<close>

theorem enrichment_failure_fallback:
  assumes fail: "client_failed (analysis os)"
    and tags_ok: "format_tags_text (alert_tags a) = Inr c"
  shows "\<exists>s' cs. run_ai_pipeline cfg s a os = (s', Finished, cs) \<and>
           ai_memory_cache s' = (ai_memory_cache s)(event_id a \<mapsto> coded_fallback) \<and>
           processing_events s' = processing_events s - {event_id a} \<and>
           handled_events s' = handled_events s"
proof -
  from tags_ok obtain q where 1: "task_step cfg s a Created os = (s, AwaitAnalysis, [Analyze q])"
    by (simp add: task_step_def task_start_def analyze_prompt_def)
  obtain s2 p2 c2 where 2: "task_step cfg s a AwaitAnalysis os = (s2, p2, c2)"
    by (cases "task_step cfg s a AwaitAnalysis os") auto
  obtain s3 p3 c3 where 3: "task_step cfg s2 a p2 os = (s3, p3, c3)"
    by (cases "task_step cfg s2 a p2 os") auto
  obtain s4 p4 c4 where 4: "task_step cfg s3 a p3 os = (s4, p4, c4)"
    by (cases "task_step cfg s3 a p3 os") auto
  have run: "run_ai_pipeline cfg s a os = (s4, p4, [Analyze q] @ c2 @ c3 @ c4)"
    using 1 2 3 4 by (simp add: run_ai_pipeline_def)
  from run_ai_pipeline_finishes[of cfg s a os] run
  have fin: "p4 = Finished" "event_id a \<notin> processing_events s4" by auto
  from 2 have "task_analysed cfg s a (analysis os) = (s2, p2, c2)" by (simp add: task_step_def)
  from task_analysed_failed[OF fail this]
  have c2: "ai_memory_cache s2 = (ai_memory_cache s)(event_id a \<mapsto> coded_fallback)" .
  from task_step_rank[OF 2] have r2: "rank p2 < 3" by auto
  with task_step_rank[OF 3] have r3: "rank p3 < 3" by auto
  from r2 have r2: "p2 \<noteq> AwaitAnalysis" by auto
  from r3 have r3: "p3 \<noteq> AwaitAnalysis" by auto
  from task_step_frame[OF 3] r2 have c3: "ai_memory_cache s3 = ai_memory_cache s2" by simp
  from task_step_frame[OF 4] r3 have c4: "ai_memory_cache s4 = ai_memory_cache s3" by simp
  have h: "handled_events s4 = handled_events s"
    using task_step_frame[OF 2] task_step_frame[OF 3] task_step_frame[OF 4] by simp
  have "processing_events s4 = processing_events s \<or>
        processing_events s4 = processing_events s - {event_id a}"
    using task_step_frame[OF 2] task_step_frame[OF 3] task_step_frame[OF 4] by auto
  with fin(2) have p: "processing_events s4 = processing_events s - {event_id a}" by auto
  from run fin c2 c3 c4 h p show ?thesis by simp
qed

theorem enrichment_failure_fallback_witness:
  "client_failed (analysis all_fail) \<and> format_tags_text (alert_tags disk_alert) = Inr []
   \<and> (\<exists>s' cs. run_ai_pipeline with_telegram logged_in disk_alert all_fail = (s', Finished, cs) \<and>
           ai_memory_cache s' = (ai_memory_cache logged_in)(event_id disk_alert \<mapsto> coded_fallback) \<and>
           processing_events s' = processing_events logged_in - {event_id disk_alert} \<and>
           handled_events s' = handled_events logged_in)"
proof -
  have f: "client_failed (analysis all_fail)"
    by (simp add: client_failed_def all_fail_def)
  have t: "format_tags_text (alert_tags disk_alert) = Inr []"
    by (simp add: format_tags_text_def disk_alert_def)
  from enrichment_failure_fallback[OF f t] f t show ?thesis by blast
qed

section \<open>Recovery from an acknowledgement\<close>

lemma hd_split_go: "hd (split_go x s) = before_sep x s"
  by (induction x s rule: split_go.induct) (auto split: list.splits simp: split_go_nonempty)

lemma tl_split_go:
  "x \<noteq> [] \<Longrightarrow> tl (split_go x s) = (if py_contains x s then split_go x (after_sep x s) else [])"
proof (induction x s rule: split_go.induct)
  case (1 sep)
  then show ?case by simp
next
  case (2 sep c cs)
  show ?case
  proof (cases "prefix sep (c # cs)")
    case True
    from 2(3) have "drop (length sep) (c # cs) = drop (length sep - 1) cs"
      by (cases sep) auto
    with True show ?thesis by simp
  next
    case False
    with 2 show ?thesis by (auto split: list.splits simp: split_go_nonempty)
  qed
qed

lemma IA_nonempty: "IA \<noteq> []" by (simp add: IA_def ascii_def)
lemma CMD_nonempty: "CMD \<noteq> []" by (simp add: CMD_def ascii_def)

lemma recover_ack_coded: "recover_ack (Some m) = Inr (coded_parse m)"
proof -
  obtain p ps where parts: "split_go CMD m = p # ps"
    using split_go_nonempty[of CMD m] by (cases "split_go CMD m") auto
  from parts hd_split_go[of CMD m] have p: "p = before_sep CMD m" by simp
  from parts tl_split_go[OF CMD_nonempty, of m]
  have ps: "ps = (if py_contains CMD m then split_go CMD (after_sep CMD m) else [])" by simp
  show ?thesis
  proof (cases "py_contains CMD m")
    case True
    with ps obtain q qs where q: "ps = q # qs" "split_go CMD (after_sep CMD m) = q # qs"
      using split_go_nonempty[of CMD "after_sep CMD m"]
      by (cases "split_go CMD (after_sep CMD m)") auto
    from q(2) hd_split_go[of CMD "after_sep CMD m"] have "q = before_sep CMD (after_sep CMD m)"
      by simp
    with True parts p q(1) show ?thesis
      by (simp add: recover_ack_def py_key_def py_split_def py_index_def CMD_nonempty coded_parse_def)
  next
    case False
    with parts p ps show ?thesis
      by (simp add: recover_ack_def py_key_def py_split_def py_index_def CMD_nonempty coded_parse_def)
  qed
qed

lemma has_marker_message: "has_marker k \<Longrightarrow> \<exists>m. message k = Some m \<and> py_contains IA m"
  by (cases "message k") (auto simp: has_marker_def IA_nonempty)

lemma process_trigger_recovers:
  assumes "eventid (last_event t) = Some eid" "eid \<noteq> []"
    and "eid \<notin> processing_events s" "eid \<notin> handled_events s" "eid \<notin> dom (ai_memory_cache s)"
    and "find has_marker (event_acks (last_event t)) = Some k"
  shows "\<exists>m. message k = Some m \<and> py_contains IA m \<and>
           process_trigger s t =
             (s\<lparr>ai_memory_cache := (ai_memory_cache s)(eid \<mapsto> coded_parse m)\<rparr>, [], None)"
proof -
  from assms(6) have "has_marker k" by (auto simp: find_Some_iff)
  then obtain m where m: "message k = Some m" "py_contains IA m"
    using has_marker_message by blast
  with assms recover_ack_coded[of m] show ?thesis
    by (auto simp: process_trigger_def Let_def)
qed

lemmas eval_trigger =
  process_trigger_def mk_trigger_def ack_text_def srv_def last_event_def event_acks_def
  has_marker_def logged_in_def initial_state_def recover_ack_def py_key_def py_split_def
  py_index_def pipeline_args_of_def trigger_tags_def CMD_def IA_def NA_def ascii_def
  py_strip_def py_isspace_def Let_def

text \<open>
  C2, as stated: the result stored by the recovery is the text before the separator
  without the prefix \<open>IA:\<close>, and the text after the separator. With two separators in the
  acknowledgement the stored action ends at the second one.
\<close>

theorem recovery_verbatim_counterexample:
  "ai_memory_cache (fst (process_trigger logged_in two_separators)) (ascii ''E2'')
   \<noteq> Some (worded_parse (ascii ''IA: a | CMD: b | CMD: c''))"
proof -
  have "ai_memory_cache (fst (process_trigger logged_in two_separators)) (ascii ''E2'')
        = Some \<lparr>summary = ascii ''a'', action = ascii ''b''\<rparr>"
    by (simp add: two_separators_def eval_trigger)
  moreover have "worded_parse (ascii ''IA: a | CMD: b | CMD: c'')
        = \<lparr>summary = ascii ''a'', action = ascii ''b | CMD: c''\<rparr>"
    by (simp add: worded_parse_def remove_prefix_def CMD_def IA_def ascii_def py_strip_def
        py_isspace_def)
  ultimately show ?thesis by (simp add: ascii_def)
qed

text \<open>
  C2, amended: for an event with a non-empty identifier that is in none of the three
  structures and whose acknowledgements hold a message containing \<open>IA:\<close>, the iteration
  creates no task and raises nothing, and it stores the parse of the first such message:
  the summary is the text before the first separator with every \<open>IA:\<close> removed,
  trimmed; the action is the text between the first separator and the second one (or
  the end), trimmed, and \<open>N/A\<close> without a separator.
\<close>

theorem recovery_suppresses_dispatch:
  assumes "eventid (last_event t) = Some eid" "eid \<noteq> []"
    and "eid \<notin> processing_events s" "eid \<notin> handled_events s" "eid \<notin> dom (ai_memory_cache s)"
    and "find has_marker (event_acks (last_event t)) = Some k"
  shows "\<exists>m s'. message k = Some m \<and> process_trigger s t = (s', [], None) \<and>
           ai_memory_cache s' eid = Some (coded_parse m)"
proof -
  from process_trigger_recovers[OF assms] obtain m where
    "message k = Some m"
    "process_trigger s t = (s\<lparr>ai_memory_cache := (ai_memory_cache s)(eid \<mapsto> coded_parse m)\<rparr>, [], None)"
    by blast
  then show ?thesis by (intro exI[of _ m] exI) auto
qed

lemma cpu_spike_hyps:
  "eventid (last_event cpu_spike) = Some (ascii ''E2'')" "ascii ''E2'' \<noteq> []"
  "ascii ''E2'' \<notin> processing_events logged_in" "ascii ''E2'' \<notin> handled_events logged_in"
  "ascii ''E2'' \<notin> dom (ai_memory_cache logged_in)"
  "find has_marker (event_acks (last_event cpu_spike)) = Some (ack_text ''IA: cpu spike | CMD: top'')"
  by (simp_all add: cpu_spike_def eval_trigger)

theorem recovery_suppresses_dispatch_witness:
  "eventid (last_event cpu_spike) = Some (ascii ''E2'') \<and> ascii ''E2'' \<noteq> []
   \<and> ascii ''E2'' \<notin> processing_events logged_in \<and> ascii ''E2'' \<notin> handled_events logged_in
   \<and> ascii ''E2'' \<notin> dom (ai_memory_cache logged_in)
   \<and> find has_marker (event_acks (last_event cpu_spike)) = Some (ack_text ''IA: cpu spike | CMD: top'')
   \<and> (\<exists>s'. process_trigger logged_in cpu_spike = (s', [], None) \<and>
         ai_memory_cache s' (ascii ''E2'')
           = Some \<lparr>summary = ascii ''cpu spike'', action = ascii ''top''\<rparr>)"
proof -
  have v: "coded_parse (ascii ''IA: cpu spike | CMD: top'')
           = \<lparr>summary = ascii ''cpu spike'', action = ascii ''top''\<rparr>"
    by (simp add: coded_parse_def CMD_def IA_def ascii_def py_strip_def py_isspace_def)
  have m: "message (ack_text ''IA: cpu spike | CMD: top'') = Some (ascii ''IA: cpu spike | CMD: top'')"
    by (simp add: ack_text_def)
  from recovery_suppresses_dispatch[OF cpu_spike_hyps] m v
  have "\<exists>s'. process_trigger logged_in cpu_spike = (s', [], None) \<and>
         ai_memory_cache s' (ascii ''E2'')
           = Some \<lparr>summary = ascii ''cpu spike'', action = ascii ''top''\<rparr>"
    by auto
  with cpu_spike_hyps show ?thesis by blast
qed

text \<open>
  C8, as stated: the recovery branch also inserts the identifier into the handled set.
  It does not: after the recovery the identifier is a key of the result map and is not
  in the handled set.
\<close>

theorem recovery_frame_counterexample:
  "ascii ''E2'' \<in> dom (ai_memory_cache (fst (process_trigger logged_in cpu_spike)))
   \<and> ascii ''E2'' \<notin> handled_events (fst (process_trigger logged_in cpu_spike))"
  by (simp add: cpu_spike_def eval_trigger)

text \<open>
  C8, amended: the recovery branch inserts the parsed result into the result map and
  changes nothing else: the in-flight set, the handled set, the token and the counter
  are as before.
\<close>

theorem recovery_frame:
  assumes "eventid (last_event t) = Some eid" "eid \<noteq> []"
    and "eid \<notin> processing_events s" "eid \<notin> handled_events s" "eid \<notin> dom (ai_memory_cache s)"
    and "find has_marker (event_acks (last_event t)) = Some k"
  shows "\<exists>r. process_trigger s t = (s\<lparr>ai_memory_cache := (ai_memory_cache s)(eid \<mapsto> r)\<rparr>, [], None)
           \<and> processing_events (fst (process_trigger s t)) = processing_events s
           \<and> handled_events (fst (process_trigger s t)) = handled_events s"
proof -
  from process_trigger_recovers[OF assms] obtain m where
    "process_trigger s t = (s\<lparr>ai_memory_cache := (ai_memory_cache s)(eid \<mapsto> coded_parse m)\<rparr>, [], None)"
    by blast
  then show ?thesis by (intro exI[of _ "coded_parse m"]) simp
qed

theorem recovery_frame_witness:
  "eventid (last_event cpu_spike) = Some (ascii ''E2'') \<and> ascii ''E2'' \<noteq> []
   \<and> ascii ''E2'' \<notin> processing_events logged_in \<and> ascii ''E2'' \<notin> handled_events logged_in
   \<and> ascii ''E2'' \<notin> dom (ai_memory_cache logged_in)
   \<and> find has_marker (event_acks (last_event cpu_spike)) = Some (ack_text ''IA: cpu spike | CMD: top'')
   \<and> (\<exists>r. process_trigger logged_in cpu_spike
            = (logged_in\<lparr>ai_memory_cache := (ai_memory_cache logged_in)(ascii ''E2'' \<mapsto> r)\<rparr>, [], None))
   \<and> processing_events (fst (process_trigger logged_in cpu_spike)) = {}
   \<and> handled_events (fst (process_trigger logged_in cpu_spike)) = {}"
proof -
  have e: "processing_events logged_in = {}" "handled_events logged_in = {}"
    by (simp_all add: logged_in_def initial_state_def)
  from recovery_frame[OF cpu_spike_hyps] cpu_spike_hyps e show ?thesis by auto
qed


section \<open>Malformed triggers\<close>

lemma missing_event_id_skipped:
  "\<not> truthy (eventid (last_event t)) \<Longrightarrow> process_trigger s t = (s, [], None)"
  by (auto simp: process_trigger_def truthy_def Let_def split: option.splits)

text \<open>
  C6 at a trigger with an empty list of hosts, followed by a well-formed trigger: the
  first one is not skipped. Its event is put into the in-flight and the handled set,
  then \<open>t['hosts'][0]\<close> raises \<open>IndexError\<close> out of \<open>process_queue\<close>, no task is
  created for it, and the trigger behind it is not processed.
\<close>

theorem malformed_trigger_raises:
  "process_queue logged_in [no_host, disk_full]
   = (logged_in\<lparr>processing_events := {ascii ''E1''}, handled_events := {ascii ''E1''}\<rparr>,
      [], Some IndexError)"
  by (simp add: no_host_def disk_full_def eval_trigger)

text \<open>The same well-formed trigger alone is dispatched.\<close>

lemma good_alone:
  "process_queue logged_in [disk_full]
   = (logged_in\<lparr>processing_events := {ascii ''E3''}, handled_events := {ascii ''E3''}\<rparr>,
      [\<lparr>event_id = ascii ''E3'', problem = ascii ''disk'', host = ascii ''srv'', severity = ascii ''5'', alert_tags = []\<rparr>], None)"
  by (simp add: no_host_def disk_full_def eval_trigger)

section \<open>What the loop of \<open>process_queue\<close> admits\<close>

lemma pipeline_args_of_event_id: "pipeline_args_of eid t = Inr a \<Longrightarrow> event_id a = eid"
  by (auto simp: pipeline_args_of_def split: sum.splits)

lemma admits_refl: "admits s s []"
  by (simp add: admits_def)

lemma admits_recover:
  "eid \<notin> processing_events s \<Longrightarrow>
   admits s (s\<lparr>ai_memory_cache := (ai_memory_cache s)(eid \<mapsto> res)\<rparr>) []"
  by (auto simp: admits_def)

lemma admits_dispatch:
  "eid \<notin> processing_events s \<Longrightarrow> eid \<notin> handled_events s \<Longrightarrow> eid \<notin> dom (ai_memory_cache s) \<Longrightarrow>
   new = [] \<or> (\<exists>a. new = [a] \<and> event_id a = eid) \<Longrightarrow>
   admits s (s\<lparr>processing_events := insert eid (processing_events s),
                handled_events := insert eid (handled_events s)\<rparr>) new"
  by (auto simp: admits_def)

lemma process_trigger_admits:
  assumes "process_trigger s t = (s', new, r)"
  shows "admits s s' new"
proof (cases "eventid (last_event t)")
  case None
  then have "process_trigger s t = (s, [], None)" by (simp add: process_trigger_def)
  with assms show ?thesis by (simp add: admits_refl)
next
  case (Some eid)
  note eid = this
  show ?thesis
  proof (cases "eid = [] \<or> eid \<in> processing_events s \<or> eid \<in> handled_events s
                \<or> eid \<in> dom (ai_memory_cache s)")
    case True
    with eid have "process_trigger s t = (s, [], None)"
      by (auto simp: process_trigger_def)
    with assms show ?thesis by (simp add: admits_refl)
  next
    case False
    then have fresh: "eid \<notin> processing_events s" "eid \<notin> handled_events s"
      "eid \<notin> dom (ai_memory_cache s)" "eid \<noteq> []" by auto
    show ?thesis
    proof (cases "find has_marker (event_acks (last_event t))")
      case (Some k)
      show ?thesis
      proof (cases "recover_ack (message k)")
        case (Inl e)
        with Some eid fresh have "process_trigger s t = (s, [], None)"
          by (simp add: process_trigger_def)
        with assms show ?thesis by (simp add: admits_refl)
      next
        case (Inr res)
        with Some eid fresh have
          "process_trigger s t = (s\<lparr>ai_memory_cache := (ai_memory_cache s)(eid \<mapsto> res)\<rparr>, [], None)"
          by (simp add: process_trigger_def)
        with assms admits_recover[OF fresh(1), of res] show ?thesis by simp
      qed
    next
      case None
      show ?thesis
      proof (cases "pipeline_args_of eid t")
        case (Inl e)
        with None eid fresh have "process_trigger s t =
           (s\<lparr>processing_events := insert eid (processing_events s),
               handled_events := insert eid (handled_events s)\<rparr>, [], Some e)"
          by (simp add: process_trigger_def)
        with assms admits_dispatch[OF fresh(1-3), of "[]"] show ?thesis by simp
      next
        case (Inr a)
        with None eid fresh have "process_trigger s t =
           (s\<lparr>processing_events := insert eid (processing_events s),
               handled_events := insert eid (handled_events s)\<rparr>, [a], None)"
          by (simp add: process_trigger_def)
        moreover from Inr have "event_id a = eid" by (rule pipeline_args_of_event_id)
        ultimately show ?thesis using assms admits_dispatch[OF fresh(1-3), of "[a]"] by simp
      qed
    qed
  qed
qed

lemma admits_trans:
  assumes "admits s s1 n1" "admits s1 s2 n2"
  shows "admits s s2 (n1 @ n2)"
proof -
  from assms(1) have
    a1: "processing_events s \<subseteq> processing_events s1" and
    a2: "handled_events s \<subseteq> handled_events s1" and
    a3: "dom (ai_memory_cache s) \<subseteq> dom (ai_memory_cache s1)" and
    a4: "processing_events s1 \<inter> dom (ai_memory_cache s1)
           \<subseteq> processing_events s \<inter> dom (ai_memory_cache s)" and
    a5: "processing_events s1 \<subseteq> processing_events s \<union> handled_events s1" and
    a6: "distinct (map event_id n1)" and
    a7: "event_id ` set n1 \<inter>
           (handled_events s \<union> processing_events s \<union> dom (ai_memory_cache s)) = {}" and
    a8: "event_id ` set n1 \<subseteq> handled_events s1" and
    a9: "zabbix_auth_token s1 = zabbix_auth_token s"
    by (simp_all only: admits_def)
  from assms(2) have
    b1: "processing_events s1 \<subseteq> processing_events s2" and
    b2: "handled_events s1 \<subseteq> handled_events s2" and
    b3: "dom (ai_memory_cache s1) \<subseteq> dom (ai_memory_cache s2)" and
    b4: "processing_events s2 \<inter> dom (ai_memory_cache s2)
           \<subseteq> processing_events s1 \<inter> dom (ai_memory_cache s1)" and
    b5: "processing_events s2 \<subseteq> processing_events s1 \<union> handled_events s2" and
    b6: "distinct (map event_id n2)" and
    b7: "event_id ` set n2 \<inter>
           (handled_events s1 \<union> processing_events s1 \<union> dom (ai_memory_cache s1)) = {}" and
    b8: "event_id ` set n2 \<subseteq> handled_events s2" and
    b9: "zabbix_auth_token s2 = zabbix_auth_token s1"
    by (simp_all only: admits_def)
  have c1: "processing_events s \<subseteq> processing_events s2" using a1 b1 by (rule subset_trans)
  have c2: "handled_events s \<subseteq> handled_events s2" using a2 b2 by (rule subset_trans)
  have c3: "dom (ai_memory_cache s) \<subseteq> dom (ai_memory_cache s2)" using a3 b3 by (rule subset_trans)
  have c4: "processing_events s2 \<inter> dom (ai_memory_cache s2)
           \<subseteq> processing_events s \<inter> dom (ai_memory_cache s)" using b4 a4 by (rule subset_trans)
  have c5: "processing_events s2 \<subseteq> processing_events s \<union> handled_events s2"
    using a5 b5 b2 by blast
  have "event_id ` set n1 \<inter> event_id ` set n2 = {}" using a8 b7 by blast
  with a6 b6 have c6: "distinct (map event_id (n1 @ n2))" by simp
  have "event_id ` set n2 \<inter>
           (handled_events s \<union> processing_events s \<union> dom (ai_memory_cache s)) = {}"
    using b7 a1 a2 a3 by blast
  with a7 have c7: "event_id ` set (n1 @ n2) \<inter>
           (handled_events s \<union> processing_events s \<union> dom (ai_memory_cache s)) = {}"
    by (simp add: image_Un Int_Un_distrib2)
  have "event_id ` set n1 \<subseteq> handled_events s2" using a8 b2 by (rule subset_trans)
  with b8 have c8: "event_id ` set (n1 @ n2) \<subseteq> handled_events s2" by (simp add: image_Un)
  have c9: "zabbix_auth_token s2 = zabbix_auth_token s" using a9 b9 by simp
  show ?thesis unfolding admits_def
    using c1 c2 c3 c4 c5 c6 c7 c8 c9 by (intro conjI)
qed

lemma process_queue_admits: "process_queue s ts = (s', new, r) \<Longrightarrow> admits s s' new"
proof (induction ts arbitrary: s s' new r)
  case Nil
  then show ?case by (simp add: admits_refl)
next
  case (Cons t ts)
  obtain s1 n1 r1 where 1: "process_trigger s t = (s1, n1, r1)"
    by (cases "process_trigger s t") auto
  show ?case
  proof (cases r1)
    case None
    obtain s2 n2 r2 where 2: "process_queue s1 ts = (s2, n2, r2)"
      by (cases "process_queue s1 ts") auto
    with 1 None Cons.prems have "s' = s2" "new = n1 @ n2" by auto
    with process_trigger_admits[OF 1] Cons.IH[OF 2] show ?thesis
      by (auto intro: admits_trans)
  next
    case (Some e)
    with 1 Cons.prems have "s' = s1" "new = n1" by auto
    with process_trigger_admits[OF 1] show ?thesis by simp
  qed
qed

section \<open>Runs of the process\<close>

lemma run_Nil [simp]: "run cfg y [] = y"
  by (simp add: run_def)

lemma run_snoc [simp]: "run cfg y (ins @ [i]) = step cfg (run cfg y ins) i"
  by (simp add: run_def)

lemma run_append: "run cfg y (ins @ ins') = run cfg (run cfg y ins) ins'"
  by (simp add: run_def)

lemma step_Login:
  "globals (step cfg y (Login tok)) = globals y \<or>
   globals (step cfg y (Login tok)) = (globals y)\<lparr>zabbix_auth_token := tok\<rparr>"
  "tasks (step cfg y (Login tok)) = tasks y" "calls (step cfg y (Login tok)) = calls y"
  by (simp_all add: step_def)

lemma step_BackendError:
  "globals (step cfg y BackendError) = (globals y)\<lparr>zabbix_auth_token := None\<rparr>"
  "tasks (step cfg y BackendError) = tasks y" "calls (step cfg y BackendError) = calls y"
  by (simp_all add: step_def)

lemma step_Triggers:
  "\<exists>new. admits (globals y) (globals (step cfg y (Triggers ts))) new \<and>
         tasks (step cfg y (Triggers ts)) = tasks y @ map (\<lambda>a. (a, Created)) new \<and>
         calls (step cfg y (Triggers ts)) = calls y"
proof (cases "truthy (zabbix_auth_token (globals y))")
  case True
  obtain s' new r where pq: "process_queue (globals y) ts = (s', new, r)"
    by (cases "process_queue (globals y) ts") auto
  with True process_queue_admits[OF pq] show ?thesis
    by (intro exI[of _ new]) (simp add: step_def)
next
  case False
  then show ?thesis by (intro exI[of _ "[]"]) (simp add: step_def admits_refl)
qed

lemma step_Resume_out: "\<not> n < length (tasks y) \<Longrightarrow> step cfg y (Resume n os) = y"
  by (simp add: step_def)

lemma step_Resume_in:
  assumes "n < length (tasks y)" "tasks y ! n = (a, p)"
  shows "\<exists>s' p' cs. task_step cfg (globals y) a p os = (s', p', cs) \<and>
           globals (step cfg y (Resume n os)) = s' \<and>
           tasks (step cfg y (Resume n os)) = (tasks y)[n := (a, p')] \<and>
           calls (step cfg y (Resume n os)) = calls y @ map (Pair (event_id a)) cs"
proof -
  obtain s' p' cs where "task_step cfg (globals y) a p os = (s', p', cs)"
    by (cases "task_step cfg (globals y) a p os") auto
  with assms show ?thesis by (simp add: step_def)
qed

lemma dispatched_update:
  "n < length (tasks y) \<Longrightarrow> tasks y ! n = (a, p) \<Longrightarrow>
   map (\<lambda>(a, p). event_id a) ((tasks y)[n := (a, p')]) = dispatched y"
  by (simp add: dispatched_def map_update list_update_same_conv)


lemma task_step_dom:
  "task_step cfg s a p os = (s', p', cs) \<Longrightarrow> dom (ai_memory_cache s) \<subseteq> dom (ai_memory_cache s')"
  by (auto simp: task_step_def task_start_def task_analysed_def task_commented_def
      task_notified_def task_notify_def Let_def
      split: pc.splits sum.splits prod.splits ai_json.splits if_splits dest!: analyze_result_frame)

text \<open>The list of dispatched events only grows, by events that were in no structure.\<close>

lemma step_dispatched:
  "\<exists>ids. dispatched (step cfg y i) = dispatched y @ ids \<and> distinct ids \<and>
     set ids \<inter> (handled_events (globals y) \<union> dom (ai_memory_cache (globals y))
                 \<union> processing_events (globals y)) = {} \<and>
     set ids \<subseteq> handled_events (globals (step cfg y i)) \<and>
     handled_events (globals y) \<subseteq> handled_events (globals (step cfg y i)) \<and>
     dom (ai_memory_cache (globals y)) \<subseteq> dom (ai_memory_cache (globals (step cfg y i)))"
proof (cases i)
  case (Login tok)
  with step_Login[of cfg y tok] show ?thesis
    by (intro exI[of _ "[]"]) (auto simp: dispatched_def)
next
  case BackendError
  then show ?thesis by (intro exI[of _ "[]"]) (simp add: step_BackendError dispatched_def)
next
  case (Triggers ts)
  from step_Triggers[of y cfg ts] obtain new where
    ad: "admits (globals y) (globals (step cfg y (Triggers ts))) new" and
    tk: "tasks (step cfg y (Triggers ts)) = tasks y @ map (\<lambda>a. (a, Created)) new"
    by blast
  from tk have "dispatched (step cfg y (Triggers ts)) = dispatched y @ map event_id new"
    by (simp add: dispatched_def comp_def)
  moreover from ad have "distinct (map event_id new)"
    "set (map event_id new) \<inter> (handled_events (globals y) \<union> dom (ai_memory_cache (globals y))
                 \<union> processing_events (globals y)) = {}"
    "set (map event_id new) \<subseteq> handled_events (globals (step cfg y (Triggers ts)))"
    "handled_events (globals y) \<subseteq> handled_events (globals (step cfg y (Triggers ts)))"
    "dom (ai_memory_cache (globals y)) \<subseteq> dom (ai_memory_cache (globals (step cfg y (Triggers ts))))"
    unfolding admits_def by (simp_all add: Un_ac)
  ultimately show ?thesis using Triggers by (intro exI[of _ "map event_id new"]) simp
next
  case (Resume n os)
  show ?thesis
  proof (cases "n < length (tasks y)")
    case False
    with Resume show ?thesis by (intro exI[of _ "[]"]) (simp add: step_Resume_out)
  next
    case True
    obtain a p where ap: "tasks y ! n = (a, p)" by (cases "tasks y ! n") auto
    from step_Resume_in[OF True ap, of cfg os] obtain s' p' cs where
      ts: "task_step cfg (globals y) a p os = (s', p', cs)" and
      g: "globals (step cfg y (Resume n os)) = s'" and
      tk: "tasks (step cfg y (Resume n os)) = (tasks y)[n := (a, p')]"
      by blast
    from tk dispatched_update[OF True ap, of p']
    have "dispatched (step cfg y (Resume n os)) = dispatched y" by (simp add: dispatched_def)
    moreover from task_step_frame[OF ts] g
    have "handled_events (globals (step cfg y (Resume n os))) = handled_events (globals y)" by simp
    moreover from task_step_dom[OF ts] g
    have "dom (ai_memory_cache (globals y)) \<subseteq> dom (ai_memory_cache (globals (step cfg y (Resume n os))))"
      by simp
    ultimately show ?thesis using Resume by (intro exI[of _ "[]"]) simp
  qed
qed

lemma run_dispatched_invariant:
  "distinct (dispatched (run cfg initial_sys ins)) \<and>
   set (dispatched (run cfg initial_sys ins)) \<subseteq> handled_events (globals (run cfg initial_sys ins))"
proof (induction ins rule: rev_induct)
  case Nil
  then show ?case by (simp add: initial_sys_def dispatched_def)
next
  case (snoc i ins)
  let ?y = "run cfg initial_sys ins"
  from step_dispatched[of cfg ?y i] obtain ids where
    ids: "dispatched (step cfg ?y i) = dispatched ?y @ ids" "distinct ids"
    "set ids \<inter> (handled_events (globals ?y) \<union> dom (ai_memory_cache (globals ?y))
                 \<union> processing_events (globals ?y)) = {}"
    "set ids \<subseteq> handled_events (globals (step cfg ?y i))"
    "handled_events (globals ?y) \<subseteq> handled_events (globals (step cfg ?y i))"
    by blast
  from snoc ids(3) have "set (dispatched ?y) \<inter> set ids = {}" by blast
  with snoc ids(1,2) have "distinct (dispatched (step cfg ?y i))" by simp
  moreover from snoc ids(1,4,5) have
    "set (dispatched (step cfg ?y i)) \<subseteq> handled_events (globals (step cfg ?y i))" by auto
  ultimately show ?case by simp
qed

lemma run_no_redispatch:
  "e \<in> handled_events (globals y) \<union> dom (ai_memory_cache (globals y)) \<Longrightarrow>
   e \<in> handled_events (globals (run cfg y ins)) \<union> dom (ai_memory_cache (globals (run cfg y ins))) \<and>
   count_list (dispatched (run cfg y ins)) e = count_list (dispatched y) e"
proof (induction ins rule: rev_induct)
  case Nil
  then show ?case by simp
next
  case (snoc i ins)
  let ?y = "run cfg y ins"
  from snoc have e: "e \<in> handled_events (globals ?y) \<union> dom (ai_memory_cache (globals ?y))"
    and c: "count_list (dispatched ?y) e = count_list (dispatched y) e" by auto
  from step_dispatched[of cfg ?y i] obtain ids where
    ids: "dispatched (step cfg ?y i) = dispatched ?y @ ids"
    "set ids \<inter> (handled_events (globals ?y) \<union> dom (ai_memory_cache (globals ?y))
                 \<union> processing_events (globals ?y)) = {}"
    "handled_events (globals ?y) \<subseteq> handled_events (globals (step cfg ?y i))"
    "dom (ai_memory_cache (globals ?y)) \<subseteq> dom (ai_memory_cache (globals (step cfg ?y i)))"
    by blast
  from e ids(2) have "e \<notin> set ids" by blast
  then have "count_list ids e = 0" by simp
  with ids(1) c have "count_list (dispatched (step cfg ?y i)) e = count_list (dispatched y) e"
    by simp
  moreover from e ids(3,4) have
    "e \<in> handled_events (globals (step cfg ?y i)) \<union> dom (ai_memory_cache (globals (step cfg ?y i)))"
    by blast
  ultimately show ?case by simp
qed


lemma task_step_analyze:
  "task_step cfg s a p os = (s', p', cs) \<Longrightarrow>
   p' \<noteq> Created \<and>
   map fst (filter is_analyze (map (Pair e) cs)) = (if p = Created \<and> p' = AwaitAnalysis then [e] else [])"
  by (auto simp: task_step_def task_start_def task_analysed_def task_commented_def
      task_notified_def task_notify_def Let_def
      split: pc.splits sum.splits prod.splits ai_json.splits if_splits)

lemma set_update_other: "x \<in> set xs \<Longrightarrow> x \<noteq> xs ! n \<Longrightarrow> x \<in> set (xs[n := y])"
  by (metis in_set_conv_nth length_list_update nth_list_update_neq)

lemma same_event_same_task:
  assumes "distinct (dispatched y)" "(a, p) \<in> set (tasks y)" "(a', p') \<in> set (tasks y)"
    "event_id a = event_id a'"
  shows "(a, p) = (a', p')"
proof -
  from assms(1) have "inj_on (\<lambda>(a, p). event_id a) (set (tasks y))"
    by (simp add: dispatched_def distinct_map)
  from inj_onD[OF this, of "(a, p)" "(a', p')"] assms(2-4) show ?thesis by simp
qed

lemma run_analysed_invariant:
  "distinct (analysed (run cfg initial_sys ins)) \<and>
   (\<forall>e\<in>set (analysed (run cfg initial_sys ins)).
      \<exists>a p. (a, p) \<in> set (tasks (run cfg initial_sys ins)) \<and> event_id a = e \<and> p \<noteq> Created)"
proof (induction ins rule: rev_induct)
  case Nil
  then show ?case by (simp add: initial_sys_def analysed_def)
next
  case (snoc i ins)
  let ?y = "run cfg initial_sys ins"
  let ?P = "\<lambda>y. distinct (analysed y) \<and>
      (\<forall>e\<in>set (analysed y). \<exists>a p. (a, p) \<in> set (tasks y) \<and> event_id a = e \<and> p \<noteq> Created)"
  have dd: "distinct (dispatched ?y)" using run_dispatched_invariant[of cfg ins] by simp
  have "?P (step cfg ?y i)"
  proof (cases i)
    case (Login tok)
    with snoc show ?thesis by (simp add: analysed_def step_Login)
  next
    case BackendError
    with snoc show ?thesis by (simp add: analysed_def step_BackendError)
  next
    case (Triggers ts)
    from step_Triggers[of ?y cfg ts] obtain new where
      "tasks (step cfg ?y (Triggers ts)) = tasks ?y @ map (\<lambda>a. (a, Created)) new"
      "calls (step cfg ?y (Triggers ts)) = calls ?y" by blast
    then have "analysed (step cfg ?y (Triggers ts)) = analysed ?y"
      "set (tasks ?y) \<subseteq> set (tasks (step cfg ?y (Triggers ts)))"
      by (simp_all add: analysed_def)
    with snoc Triggers show ?thesis by (simp only:) blast
  next
    case (Resume n os)
    show ?thesis
    proof (cases "n < length (tasks ?y)")
      case False
      with snoc Resume show ?thesis by (simp add: step_Resume_out)
    next
      case True
      obtain a p where ap: "tasks ?y ! n = (a, p)" by (cases "tasks ?y ! n") auto
      from step_Resume_in[OF True ap, of cfg os] obtain s' p' cs where
        ts: "task_step cfg (globals ?y) a p os = (s', p', cs)" and
        tk: "tasks (step cfg ?y (Resume n os)) = (tasks ?y)[n := (a, p')]" and
        cl: "calls (step cfg ?y (Resume n os)) = calls ?y @ map (Pair (event_id a)) cs"
        by blast
      from task_step_analyze[OF ts, of "event_id a"] have p': "p' \<noteq> Created" and
        new: "map fst (filter is_analyze (map (Pair (event_id a)) cs))
              = (if p = Created \<and> p' = AwaitAnalysis then [event_id a] else [])" by auto
      from cl new have an: "analysed (step cfg ?y (Resume n os))
          = analysed ?y @ (if p = Created \<and> p' = AwaitAnalysis then [event_id a] else [])"
        by (simp add: analysed_def)
      from True ap have mem: "(a, p) \<in> set (tasks ?y)" by (metis nth_mem)
      from True have mem': "(a, p') \<in> set ((tasks ?y)[n := (a, p')])"
        by (simp add: set_update_memI)
      have keep: "\<exists>a2 p2. (a2, p2) \<in> set ((tasks ?y)[n := (a, p')]) \<and> event_id a2 = e \<and> p2 \<noteq> Created"
        if "e \<in> set (analysed ?y)" for e
      proof -
        from snoc that obtain a1 p1 where 1: "(a1, p1) \<in> set (tasks ?y)" "event_id a1 = e" "p1 \<noteq> Created"
          by blast
        show ?thesis
        proof (cases "(a1, p1) = (a, p)")
          case True
          with 1 mem' p' show ?thesis by blast
        next
          case False
          with 1(1) ap have "(a1, p1) \<in> set ((tasks ?y)[n := (a, p')])"
            by (intro set_update_other) simp_all
          with 1 show ?thesis by blast
        qed
      qed
      have fresh: "event_id a \<notin> set (analysed ?y)" if "p = Created"
      proof
        assume "event_id a \<in> set (analysed ?y)"
        with snoc obtain a1 p1 where 1: "(a1, p1) \<in> set (tasks ?y)" "event_id a1 = event_id a"
          "p1 \<noteq> Created" by blast
        from same_event_same_task[OF dd 1(1) mem 1(2)] 1(3) that show False by simp
      qed
      from snoc have d: "distinct (analysed ?y)" by simp
      have "distinct (analysed (step cfg ?y (Resume n os)))"
        using an d fresh by auto
      moreover have "\<forall>e\<in>set (analysed (step cfg ?y (Resume n os))).
          \<exists>a2 p2. (a2, p2) \<in> set (tasks (step cfg ?y (Resume n os))) \<and> event_id a2 = e \<and> p2 \<noteq> Created"
      proof
        fix e assume "e \<in> set (analysed (step cfg ?y (Resume n os)))"
        with an have "e \<in> set (analysed ?y) \<or> e = event_id a" by (auto split: if_splits)
        then show "\<exists>a2 p2. (a2, p2) \<in> set (tasks (step cfg ?y (Resume n os))) \<and> event_id a2 = e \<and> p2 \<noteq> Created"
        proof
          assume "e \<in> set (analysed ?y)"
          from keep[OF this] tk show ?thesis by simp
        next
          assume "e = event_id a"
          with mem' p' tk show ?thesis by auto
        qed
      qed
      ultimately show ?thesis using Resume by simp
    qed
  qed
  then show ?case by simp
qed


lemma first_cycle_disk_full:
  "run cfg initial_sys (first_cycle disk_full) =
     \<lparr>globals = logged_in\<lparr>processing_events := {ascii ''E3''}, handled_events := {ascii ''E3''}\<rparr>,
      tasks = [(disk_full_args, Created)], calls = []\<rparr>"
  by (simp add: run_def step_def first_cycle_def initial_sys_def truthy_def disk_full_def
      disk_full_args_def eval_trigger)

text \<open>
  C1: in every run of the process, from its start, no event is dispatched twice (no two
  tasks are created for one event), and the enrichment service is called at most once
  per event; and once an event is in the handled set (it was dispatched) or is a key of
  the result map (it was recovered or enriched), nothing that happens later, no fetch
  cycle in particular, dispatches it again.
\<close>

theorem at_most_once_dispatch:
  "distinct (dispatched (run cfg initial_sys ins)) \<and>
   distinct (analysed (run cfg initial_sys ins)) \<and>
   (e \<in> handled_events (globals (run cfg initial_sys ins))
        \<union> dom (ai_memory_cache (globals (run cfg initial_sys ins))) \<longrightarrow>
    count_list (dispatched (run cfg initial_sys (ins @ later))) e
      = count_list (dispatched (run cfg initial_sys ins)) e)"
  using run_dispatched_invariant[of cfg ins] run_analysed_invariant[of cfg ins]
    run_no_redispatch[of e "run cfg initial_sys ins" cfg later]
  by (simp add: run_append)

theorem at_most_once_dispatch_witness:
  "ascii ''E3'' \<in> handled_events (globals (run no_telegram initial_sys (first_cycle disk_full)))
   \<and> dispatched (run no_telegram initial_sys (first_cycle disk_full)) = [ascii ''E3'']
   \<and> count_list (dispatched (run no_telegram initial_sys
         (first_cycle disk_full @ [Triggers [disk_full], Triggers [disk_full]]))) (ascii ''E3'') = 1"
proof -
  have h: "ascii ''E3'' \<in> handled_events (globals (run no_telegram initial_sys (first_cycle disk_full)))"
    by (simp add: first_cycle_disk_full)
  have d: "dispatched (run no_telegram initial_sys (first_cycle disk_full)) = [ascii ''E3'']"
    by (simp add: first_cycle_disk_full dispatched_def disk_full_args_def)
  from at_most_once_dispatch[of no_telegram "first_cycle disk_full" "ascii ''E3''"
      "[Triggers [disk_full], Triggers [disk_full]]"] h d
  show ?thesis by simp
qed

section \<open>The in-flight set\<close>

lemma step_keeps_stuck:
  assumes "e \<in> processing_events (globals y)" "e \<notin> set (dispatched y)"
  shows "e \<in> processing_events (globals (step cfg y i)) \<and> e \<notin> set (dispatched (step cfg y i))"
proof -
  from step_dispatched[of cfg y i] obtain ids where
    ids: "dispatched (step cfg y i) = dispatched y @ ids"
    "set ids \<inter> (handled_events (globals y) \<union> dom (ai_memory_cache (globals y))
                 \<union> processing_events (globals y)) = {}"
    by blast
  with assms have nd: "e \<notin> set (dispatched (step cfg y i))" by auto
  have "e \<in> processing_events (globals (step cfg y i))"
  proof (cases i)
    case (Login tok)
    with step_Login(1)[of cfg y tok] assms(1) show ?thesis by auto
  next
    case BackendError
    with assms(1) show ?thesis by (simp add: step_BackendError)
  next
    case (Triggers ts)
    from step_Triggers[of y cfg ts] obtain new where
      "admits (globals y) (globals (step cfg y (Triggers ts))) new" by blast
    then have "processing_events (globals y) \<subseteq> processing_events (globals (step cfg y (Triggers ts)))"
      by (simp add: admits_def)
    with assms(1) Triggers show ?thesis by auto
  next
    case (Resume n os)
    show ?thesis
    proof (cases "n < length (tasks y)")
      case False
      with Resume assms(1) show ?thesis by (simp add: step_Resume_out)
    next
      case True
      obtain a p where ap: "tasks y ! n = (a, p)" by (cases "tasks y ! n") auto
      from True ap have "event_id a \<in> set (dispatched y)"
        unfolding dispatched_def by (metis (mono_tags, lifting) case_prod_conv image_eqI nth_mem set_map)
      with assms(2) have ne: "e \<noteq> event_id a" by auto
      from step_Resume_in[OF True ap, of cfg os] obtain s' p' cs where
        ts: "task_step cfg (globals y) a p os = (s', p', cs)" and
        g: "globals (step cfg y (Resume n os)) = s'" by blast
      from task_step_frame[OF ts] have "processing_events s' = processing_events (globals y) \<or>
          processing_events s' = processing_events (globals y) - {event_id a}" by simp
      with assms(1) ne g Resume show ?thesis by auto
    qed
  qed
  with nd show ?thesis by simp
qed

lemma run_keeps_stuck:
  "e \<in> processing_events (globals y) \<Longrightarrow> e \<notin> set (dispatched y) \<Longrightarrow>
   e \<in> processing_events (globals (run cfg y ins)) \<and> e \<notin> set (dispatched (run cfg y ins))"
  by (induction ins rule: rev_induct) (simp_all add: step_keeps_stuck)

lemma first_cycle_no_host:
  "run cfg initial_sys (first_cycle no_host) =
     \<lparr>globals = logged_in\<lparr>processing_events := {ascii ''E1''}, handled_events := {ascii ''E1''}\<rparr>,
      tasks = [], calls = []\<rparr>"
  by (simp add: run_def step_def first_cycle_def initial_sys_def truthy_def no_host_def eval_trigger)

text \<open>
  C5 after a fetch of the trigger with an empty list of hosts: its event was put into the
  in-flight set by line 162, line 164 raised before a task was created, and in every
  continuation of the run the event is still in the in-flight set and no task exists
  for it. (Every task that does run removes its event: \<open>run_ai_pipeline_finishes\<close>.)
\<close>

theorem stuck_in_flight:
  "ascii ''E1'' \<in> processing_events (globals (run cfg initial_sys (first_cycle no_host @ ins)))
   \<and> ascii ''E1'' \<notin> set (dispatched (run cfg initial_sys (first_cycle no_host @ ins)))"
proof -
  have "ascii ''E1'' \<in> processing_events (globals (run cfg initial_sys (first_cycle no_host)))"
    "ascii ''E1'' \<notin> set (dispatched (run cfg initial_sys (first_cycle no_host)))"
    by (simp_all add: first_cycle_no_host dispatched_def)
  from run_keeps_stuck[OF this, of cfg ins] show ?thesis by (simp add: run_append)
qed


lemma task_step_overlap:
  "task_step cfg s a p os = (s', p', cs) \<Longrightarrow>
   stored_unfinished p' \<or> event_id a \<notin> processing_events s' \<or>
   (s' = s \<and> (p' = p \<or> p = Created))"
  by (auto simp: task_step_def task_start_def task_analysed_def task_commented_def
      task_notified_def task_notify_def Let_def
      split: pc.splits sum.splits prod.splits ai_json.splits if_splits)

lemma step_overlap:
  assumes inv: "\<And>e. e \<in> processing_events (globals y) \<Longrightarrow> e \<in> dom (ai_memory_cache (globals y)) \<Longrightarrow>
              \<exists>a p. (a, p) \<in> set (tasks y) \<and> event_id a = e \<and> stored_unfinished p"
    and e: "e \<in> processing_events (globals (step cfg y i))"
      "e \<in> dom (ai_memory_cache (globals (step cfg y i)))"
  shows "\<exists>a p. (a, p) \<in> set (tasks (step cfg y i)) \<and> event_id a = e \<and> stored_unfinished p"
proof (cases i)
  case (Login tok)
  with step_Login[of cfg y tok] e have "e \<in> processing_events (globals y)"
    "e \<in> dom (ai_memory_cache (globals y))" by auto
  from inv[OF this] Login show ?thesis by (simp add: step_Login)
next
  case BackendError
  with e have "e \<in> processing_events (globals y)" "e \<in> dom (ai_memory_cache (globals y))"
    by (simp_all add: step_BackendError)
  from inv[OF this] BackendError show ?thesis by (simp add: step_BackendError)
next
  case (Triggers ts)
  from step_Triggers[of y cfg ts] obtain new where
    ad: "admits (globals y) (globals (step cfg y (Triggers ts))) new" and
    tk: "tasks (step cfg y (Triggers ts)) = tasks y @ map (\<lambda>a. (a, Created)) new" by blast
  from ad have "processing_events (globals (step cfg y (Triggers ts)))
      \<inter> dom (ai_memory_cache (globals (step cfg y (Triggers ts))))
      \<subseteq> processing_events (globals y) \<inter> dom (ai_memory_cache (globals y))"
    by (simp add: admits_def)
  with e Triggers have "e \<in> processing_events (globals y)" "e \<in> dom (ai_memory_cache (globals y))"
    by auto
  from inv[OF this] tk Triggers show ?thesis by auto
next
  case (Resume n os)
  show ?thesis
  proof (cases "n < length (tasks y)")
    case False
    with Resume e inv show ?thesis by (simp add: step_Resume_out)
  next
    case True
    obtain a p where ap: "tasks y ! n = (a, p)" by (cases "tasks y ! n") auto
    from step_Resume_in[OF True ap, of cfg os] obtain s' p' cs where
      ts: "task_step cfg (globals y) a p os = (s', p', cs)" and
      g: "globals (step cfg y (Resume n os)) = s'" and
      tk: "tasks (step cfg y (Resume n os)) = (tasks y)[n := (a, p')]" by blast
    from True have mem': "(a, p') \<in> set ((tasks y)[n := (a, p')])"
      by (simp add: set_update_memI)
    from e g Resume have e': "e \<in> processing_events s'" "e \<in> dom (ai_memory_cache s')" by simp_all
    note fr = task_step_frame[OF ts]
    have "\<exists>a2 p2. (a2, p2) \<in> set ((tasks y)[n := (a, p')]) \<and> event_id a2 = e \<and> stored_unfinished p2"
    proof (cases "e = event_id a")
      case False
      with fr e' have "e \<in> processing_events (globals y)" "e \<in> dom (ai_memory_cache (globals y))"
        by (auto simp: dom_def)
      from inv[OF this] obtain a2 p2 where 2: "(a2, p2) \<in> set (tasks y)" "event_id a2 = e"
        "stored_unfinished p2" by blast
      with False ap have "(a2, p2) \<noteq> tasks y ! n" by auto
      with 2(1) have "(a2, p2) \<in> set ((tasks y)[n := (a, p')])" by (rule set_update_other)
      with 2 show ?thesis by blast
    next
      case True
      from task_step_overlap[OF ts] consider "stored_unfinished p'"
        | "event_id a \<notin> processing_events s'" | "s' = globals y" "p' = p \<or> p = Created"
        by blast
      then show ?thesis
      proof cases
        case 1
        with mem' True show ?thesis by blast
      next
        case 2
        with e' True show ?thesis by simp
      next
        case 3
        with e' have "e \<in> processing_events (globals y)" "e \<in> dom (ai_memory_cache (globals y))"
          by simp_all
        from inv[OF this] obtain a2 p2 where 2: "(a2, p2) \<in> set (tasks y)" "event_id a2 = e"
          "stored_unfinished p2" by blast
        show ?thesis
        proof (cases "(a2, p2) = (a, p)")
          case True
          with 2(3) 3(2) have "p' = p" by auto
          with True 2 mem' show ?thesis by auto
        next
          case False
          with ap have "(a2, p2) \<noteq> tasks y ! n" by simp
          with 2(1) have "(a2, p2) \<in> set ((tasks y)[n := (a, p')])" by (rule set_update_other)
          with 2 show ?thesis by blast
        qed
      qed
    qed
    with tk Resume show ?thesis by simp
  qed
qed

lemma until_stored_overlap:
  "ascii ''E3'' \<in> processing_events (globals (run with_telegram initial_sys until_stored))"
  "ascii ''E3'' \<in> dom (ai_memory_cache (globals (run with_telegram initial_sys until_stored)))"
  "map snd (tasks (run with_telegram initial_sys until_stored))
     = [AwaitComment (ascii ''disk full'') (ascii ''df -h'')]"
  by (simp_all add: until_stored_def run_def first_cycle_disk_full[unfolded run_def] step_def
      task_step_def task_start_def task_analysed_def analyze_prompt_def format_tags_text_def
      analyze_result_def reply_def disk_full_args_def logged_in_def initial_state_def truthy_def
      Let_def ascii_def)

lemma snapshot_prefers_result:
  "format_entry s hhmm t = Inr en \<Longrightarrow> eventid (last_event t) = Some e \<Longrightarrow>
   ai_memory_cache s e = Some r \<Longrightarrow> ai_summary en = summary r \<and> ai_action en = Some (action r)"
  by (auto simp: format_entry_def Let_def split: sum.splits)

text \<open>
  C4, as stated: no event is in the in-flight set and a key of the result map at a point
  where the state can be read. After the fetch of a trigger, the start of its task and
  the return of the analysis, the task has stored its result (line 134) and is suspended
  in the acknowledgement post (line 136); its event is in both.
\<close>

theorem in_flight_and_stored_counterexample:
  "ascii ''E3'' \<in> processing_events (globals (run with_telegram initial_sys until_stored))
   \<and> ascii ''E3'' \<in> dom (ai_memory_cache (globals (run with_telegram initial_sys until_stored)))
   \<and> map snd (tasks (run with_telegram initial_sys until_stored))
       = [AwaitComment (ascii ''disk full'') (ascii ''df -h'')]"
  using until_stored_overlap by simp

text \<open>
  C4, amended: in every state the process reaches, an event is in the in-flight set and
  a key of the result map only if a task of this event has stored its result and has
  not finished: it is suspended in the acknowledgement post or in the notification.
\<close>

theorem overlap_only_while_finishing:
  assumes "e \<in> processing_events (globals (run cfg initial_sys ins))"
    and "e \<in> dom (ai_memory_cache (globals (run cfg initial_sys ins)))"
  shows "\<exists>a p. (a, p) \<in> set (tasks (run cfg initial_sys ins)) \<and> event_id a = e \<and> stored_unfinished p"
  using assms
proof (induction ins arbitrary: e rule: rev_induct)
  case Nil
  then show ?case by (simp add: initial_sys_def initial_state_def)
next
  case (snoc i ins)
  from step_overlap[of "run cfg initial_sys ins" e cfg i, OF snoc.IH] snoc.prems
  show ?case by simp
qed

theorem overlap_only_while_finishing_witness:
  "ascii ''E3'' \<in> processing_events (globals (run with_telegram initial_sys until_stored))
   \<and> ascii ''E3'' \<in> dom (ai_memory_cache (globals (run with_telegram initial_sys until_stored)))
   \<and> (\<exists>a p. (a, p) \<in> set (tasks (run with_telegram initial_sys until_stored)) \<and>
          event_id a = ascii ''E3'' \<and> stored_unfinished p)"
  using overlap_only_while_finishing[OF until_stored_overlap(1,2)] until_stored_overlap(1,2)
  by blast

end
